theory Spec2Isabelle
  imports Complex_Main
begin

section \<open>Data model\<close>

text \<open>
  The Python exceptions the modelled code can raise. \<open>DanglingRef\<close> is not a Python
  exception: a Python reference always points to a live object, and the constructor only
  makes the arena lookups below total.
\<close>

datatype exn = ValueError | ZeroDivisionError | IndexError | AttributeError | DanglingRef

text \<open>
  Modelled from the spec: \<open>src.Colour\<close>, \<open>src.Move\<close>, \<open>src.Tile\<close> and \<open>src.Board\<close>
  belong to the game framework and are not among the agent sources. A colour is one of two
  values with an involutive \<open>opposite\<close>; a move is a pair of coordinates compared by
  coordinate; a tile holds its coordinates and an optional colour; a board holds its
  \<open>size\<close> and the grid \<open>tiles\<close>, read by the agents as \<open>board.tiles[x][y]\<close>.
\<close>

datatype Colour = RED | BLUE

fun opposite :: "Colour \<Rightarrow> Colour" where
  "opposite RED = BLUE"
| "opposite BLUE = RED"

datatype Move = Move (move_x: int) (move_y: int)

record Tile =
  tile_x :: int
  tile_y :: int
  colour :: "Colour option"

record Board =
  tiles :: "Tile list list"
  bsize :: int

text \<open>
  \<open>TreeNode\<close> of MCTSAgent.py. Nodes are Python objects that point at each other
  (\<open>parent\<close>, \<open>children\<close>), so they live in an arena: a list of nodes, a reference being
  an index into it. A new object is appended at the end, so its index is fresh.
\<close>

type_synonym ref = nat

record TreeNode =
  move :: "Move option"
  parent :: "ref option"
  children :: "ref list"
  visits :: int
  wins :: int

type_synonym heap = "TreeNode list"

text \<open>\<open>TreeNode.__init__\<close>: the new object and the arena that holds it.\<close>

definition TreeNode_init :: "heap \<Rightarrow> Move option \<Rightarrow> ref option \<Rightarrow> heap \<times> ref" where
  "TreeNode_init h mv par =
     (h @ [\<lparr>move = mv, parent = par, children = [], visits = 0, wins = 0\<rparr>], length h)"

text \<open>
  Dereferencing: \<open>deref\<close> reads one object, \<open>derefs\<close> the objects of a list of references
  (for instance \<open>node.children\<close>).
\<close>

definition deref :: "heap \<Rightarrow> ref \<Rightarrow> exn + TreeNode" where
  "deref h a = (if a < length h then Inr (h ! a) else Inl DanglingRef)"

fun derefs :: "heap \<Rightarrow> ref list \<Rightarrow> exn + TreeNode list" where
  "derefs h [] = Inr []"
| "derefs h (a # rest) =
     (case deref h a of
        Inl e \<Rightarrow> Inl e
      | Inr nd \<Rightarrow> (case derefs h rest of Inl e \<Rightarrow> Inl e | Inr nds \<Rightarrow> Inr (nd # nds)))"

section \<open>Python built-ins used by the agents\<close>

text \<open>
  \<open>max(xs, key=f)\<close>: ValueError on an empty sequence; otherwise the first element whose
  key is maximal (the running maximum is replaced only by a strictly greater key).
\<close>

fun py_max_from :: "('a \<Rightarrow> 'k::linorder) \<Rightarrow> 'a \<Rightarrow> 'a list \<Rightarrow> 'a" where
  "py_max_from key best [] = best"
| "py_max_from key best (x # xs) = py_max_from key (if key best < key x then x else best) xs"

definition py_max :: "('a \<Rightarrow> 'k::linorder) \<Rightarrow> 'a list \<Rightarrow> exn + 'a" where
  "py_max key xs = (case xs of [] \<Rightarrow> Inl ValueError | x # rest \<Rightarrow> Inr (py_max_from key x rest))"

text \<open>
  \<open>random.choice(xs)\<close>: IndexError on an empty sequence; otherwise the element at an
  index below \<open>len(xs)\<close>. The number \<open>r\<close> is what the generator drew; as \<open>r\<close> ranges over
  the naturals, every element of \<open>xs\<close> is reached.
\<close>

definition random_choice :: "nat \<Rightarrow> 'a list \<Rightarrow> exn + 'a" where
  "random_choice r xs = (if xs = [] then Inl IndexError else Inr (xs ! (r mod length xs)))"

text \<open>\<open>xs[i]\<close> for a Python integer \<open>i\<close>: negative indices count from the end.\<close>

definition py_nth :: "'a list \<Rightarrow> int \<Rightarrow> exn + 'a" where
  "py_nth xs i =
     (if 0 \<le> i \<and> i < int (length xs) then Inr (xs ! nat i)
      else if i < 0 \<and> - int (length xs) \<le> i then Inr (xs ! nat (int (length xs) + i))
      else Inl IndexError)"

text \<open>\<open>itertools.combinations(xs, 2)\<close>: the pairs of positions \<open>i < j\<close>, in lexicographic order.\<close>

fun combinations2 :: "'a list \<Rightarrow> ('a \<times> 'a) list" where
  "combinations2 [] = []"
| "combinations2 (x # xs) = map (Pair x) xs @ combinations2 xs"

section \<open>Utilities\<close>

definition RELATIVE_NEIGHBOURS :: "(int \<times> int) list" where
  "RELATIVE_NEIGHBOURS = [(-1, -1), (-1, 0), (0, -1), (0, 1), (1, 0), (1, 1)]"

definition is_within_bounds :: "Board \<Rightarrow> int \<Rightarrow> int \<Rightarrow> bool" where
  "is_within_bounds b x y = (0 \<le> x \<and> x < bsize b \<and> 0 \<le> y \<and> y < bsize b)"

text \<open>\<open>board.tiles[x][y]\<close>.\<close>

definition tile_at :: "Board \<Rightarrow> int \<Rightarrow> int \<Rightarrow> exn + Tile" where
  "tile_at b x y = (case py_nth (tiles b) x of Inl e \<Rightarrow> Inl e | Inr row \<Rightarrow> py_nth row y)"

text \<open>The loop of \<open>Utilities.get_neighbours\<close> over the offsets still to visit.\<close>

fun get_neighbours_from :: "Board \<Rightarrow> int \<Rightarrow> int \<Rightarrow> (int \<times> int) list \<Rightarrow> exn + Tile list" where
  "get_neighbours_from b x y [] = Inr []"
| "get_neighbours_from b x y ((x_offset, y_offset) # rest) =
     (let x_n = x + x_offset; y_n = y + y_offset in
      if is_within_bounds b x_n y_n
      then (case tile_at b x_n y_n of
              Inl e \<Rightarrow> Inl e
            | Inr t \<Rightarrow> (case get_neighbours_from b x y rest of
                          Inl e \<Rightarrow> Inl e
                        | Inr ts \<Rightarrow> Inr (t # ts)))
      else get_neighbours_from b x y rest)"

definition get_neighbours :: "Board \<Rightarrow> int \<Rightarrow> int \<Rightarrow> exn + Tile list" where
  "get_neighbours b x y = get_neighbours_from b x y RELATIVE_NEIGHBOURS"

section \<open>TreeNode\<close>

text \<open>\<open>TreeNode.is_fully_expanded\<close>: \<open>len(self.children) == len(legal_moves)\<close>.\<close>

definition is_fully_expanded :: "TreeNode \<Rightarrow> Move list \<Rightarrow> bool" where
  "is_fully_expanded nd legal_moves = (length (children nd) = length legal_moves)"

text \<open>
  \<open>TreeNode.add_child\<close>: creates the child with \<open>parent = self\<close>, appends it to
  \<open>self.children\<close> and returns it. There is no test on \<open>move\<close>.
\<close>

definition add_child :: "heap \<Rightarrow> ref \<Rightarrow> Move \<Rightarrow> exn + (heap \<times> ref)" where
  "add_child h node mv =
     (if node < length h
      then (let (h1, child_node) = TreeNode_init h (Some mv) (Some node) in
            Inr (h1[node := (h1 ! node)\<lparr>children := children (h1 ! node) @ [child_node]\<rparr>],
                 child_node))
      else Inl DanglingRef)"

text \<open>
  The key of \<open>TreeNode.best_child\<close>,
  \<open>(child.wins / child.visits) + exploration_param * math.sqrt(math.log(self.visits) / child.visits)\<close>,
  is computed in floating point. Its value is taken as the parameter \<open>uct\<close> (from the
  child's wins, the child's visits and the parent's visits); the cases in which Python
  raises instead of returning a number are written out: division by a zero visit count,
  \<open>math.log\<close> of a non-positive number, \<open>math.sqrt\<close> of a negative number.
\<close>

definition uct_key :: "(int \<Rightarrow> int \<Rightarrow> int \<Rightarrow> 's) \<Rightarrow> TreeNode \<Rightarrow> TreeNode \<Rightarrow> exn + 's" where
  "uct_key uct nd child =
     (if visits child = 0 then Inl ZeroDivisionError
      else if visits nd \<le> 0 then Inl ValueError
      else if visits child < 0 \<and> 1 < visits nd then Inl ValueError
      else Inr (uct (wins child) (visits child) (visits nd)))"

fun uct_keys :: "(int \<Rightarrow> int \<Rightarrow> int \<Rightarrow> 's) \<Rightarrow> TreeNode \<Rightarrow> TreeNode list \<Rightarrow> exn + 's list" where
  "uct_keys uct nd [] = Inr []"
| "uct_keys uct nd (c # cs) =
     (case uct_key uct nd c of
        Inl e \<Rightarrow> Inl e
      | Inr k \<Rightarrow> (case uct_keys uct nd cs of Inl e \<Rightarrow> Inl e | Inr ks \<Rightarrow> Inr (k # ks)))"

definition best_child :: "(int \<Rightarrow> int \<Rightarrow> int \<Rightarrow> 's::linorder) \<Rightarrow> heap \<Rightarrow> ref \<Rightarrow> exn + ref" where
  "best_child uct h node =
     (case deref h node of
        Inl e \<Rightarrow> Inl e
      | Inr nd \<Rightarrow>
          (case derefs h (children nd) of
             Inl e \<Rightarrow> Inl e
           | Inr cs \<Rightarrow>
               if cs = [] then Inl ValueError
               else (case uct_keys uct nd cs of
                       Inl e \<Rightarrow> Inl e
                     | Inr ks \<Rightarrow> map_sum id fst (py_max snd (zip (children nd) ks)))))"

section \<open>Backpropagation\<close>

text \<open>
  \<open>MCTS._backpropagate\<close> (the same code in MCTSAgent.py and mcts.py):
  \<^verbatim>\<open>
  while node is not None:
      node.visits += 1
      node.wins += result
      node = node.parent
      result = 1 - result
  \<close>
  The loop follows parent pointers; on a cyclic chain it never returns, which is the
  value \<open>None\<close> here.
\<close>

partial_function (option) backpropagate :: "heap \<Rightarrow> ref option \<Rightarrow> int \<Rightarrow> (exn + heap) option" where
  "backpropagate h node result =
     (case node of
        None \<Rightarrow> Some (Inr h)
      | Some a \<Rightarrow>
          if a < length h
          then backpropagate
                 (h[a := (h ! a)\<lparr>visits := visits (h ! a) + 1, wins := wins (h ! a) + result\<rparr>])
                 (parent (h ! a)) (1 - result)
          else Some (Inl DanglingRef))"

text \<open>
  \<open>parent_chain h n path\<close>: \<open>path\<close> lists \<open>n\<close>, its parent, its grandparent and so on up to
  a node without parent (the root), all of them objects of the arena.
\<close>

inductive parent_chain :: "heap \<Rightarrow> ref \<Rightarrow> ref list \<Rightarrow> bool" where
  chain_root: "a < length h \<Longrightarrow> parent (h ! a) = None \<Longrightarrow> parent_chain h a [a]"
| chain_step: "a < length h \<Longrightarrow> parent (h ! a) = Some p \<Longrightarrow> parent_chain h p ps
               \<Longrightarrow> parent_chain h a (a # ps)"

text \<open>
  What one pass does to the arena, written as a recursion over the path it walks; the
  loop is shown below to compute exactly this on a parent chain.
\<close>

fun bump_path :: "heap \<Rightarrow> ref list \<Rightarrow> int \<Rightarrow> heap" where
  "bump_path h [] r = h"
| "bump_path h (a # ps) r =
     bump_path (h[a := (h ! a)\<lparr>visits := visits (h ! a) + 1, wins := wins (h ! a) + r\<rparr>]) ps (1 - r)"

text \<open>A root, its child and its grandchild, none visited yet.\<close>

definition ex_chain_heap :: heap where
  "ex_chain_heap =
     [\<lparr>move = None, parent = None, children = [1], visits = 0, wins = 0\<rparr>,
      \<lparr>move = Some (Move 0 0), parent = Some 0, children = [2], visits = 0, wins = 0\<rparr>,
      \<lparr>move = Some (Move 0 1), parent = Some 1, children = [], visits = 0, wins = 0\<rparr>]"

section \<open>MCTS (MCTSAgent.py)\<close>

text \<open>
  The search object: the board it was given (the caller's board object, read only by the
  search: the simulation works on a deep copy), the agent's colour, and the length of a
  search in seconds.
\<close>

record MCTS =
  board :: Board
  mcts_colour :: Colour
  turn_length :: rat

text \<open>
  What the search takes from outside the agent sources. The methods of \<open>src.Board\<close>
  (\<open>set_tile_colour\<close>, which may raise, \<open>has_ended\<close>, \<open>get_winner\<close>) and the floating-point
  UCT score are parameters. \<open>clock\<close> gives the successive readings of \<open>time.time()\<close> and
  \<open>rand\<close> the successive draws of the random generator; the state of a computation holds
  how many of each were consumed.
\<close>

record 's env =
  uct_score :: "int \<Rightarrow> int \<Rightarrow> int \<Rightarrow> 's"
  set_tile_colour :: "Board \<Rightarrow> int \<Rightarrow> int \<Rightarrow> Colour \<Rightarrow> exn + Board"
  has_ended :: "Board \<Rightarrow> Colour \<Rightarrow> bool"
  get_winner :: "Board \<Rightarrow> Colour option"
  clock :: "nat \<Rightarrow> rat"
  rand :: "nat \<Rightarrow> nat"

text \<open>\<open>MCTS._get_legal_moves\<close>: the tiles that are neither red nor blue, row by row.\<close>

definition get_legal_moves :: "Board \<Rightarrow> exn + Move list" where
  "get_legal_moves b =
     (let available_tiles =
            filter (\<lambda>tile. colour tile \<noteq> Some RED \<and> colour tile \<noteq> Some BLUE) (concat (tiles b))
      in if length available_tiles = 0 then Inl ValueError
         else Inr (map (\<lambda>tile. Move (tile_x tile) (tile_y tile)) available_tiles))"

text \<open>\<open>MCTS.is_bridge\<close>; Python's \<open>//\<close> rounds down, as \<open>div\<close> on \<open>int\<close> does.\<close>

definition is_bridge :: "Tile \<Rightarrow> Tile \<Rightarrow> Move \<Rightarrow> bool" where
  "is_bridge n1 n2 mv =
     (\<bar>tile_x n1 - tile_x n2\<bar> = 2 \<and> \<bar>tile_y n1 - tile_y n2\<bar> = 2 \<and>
      (move_x mv, move_y mv) = ((tile_x n1 + tile_x n2) div 2, (tile_y n1 + tile_y n2) div 2))"

text \<open>\<open>MCTS.completes_wheel\<close>: at least 3 neighbours of the colour.\<close>

definition completes_wheel :: "Board \<Rightarrow> int \<Rightarrow> int \<Rightarrow> Colour \<Rightarrow> exn + bool" where
  "completes_wheel b x y col =
     (case get_neighbours b x y of
        Inl e \<Rightarrow> Inl e
      | Inr neighbors \<Rightarrow>
          Inr (3 \<le> length (filter (\<lambda>neighbour. colour neighbour = Some col) neighbors)))"

text \<open>
  \<open>MCTS.savebridge\<close>. The first loop appends a move once for every pair of its neighbours
  that passes the bridge test, the second appends every move that completes a wheel.
\<close>

fun savebridge_bridges :: "Board \<Rightarrow> Colour \<Rightarrow> Move list \<Rightarrow> exn + Move list" where
  "savebridge_bridges b col [] = Inr []"
| "savebridge_bridges b col (mv # rest) =
     (case get_neighbours b (move_x mv) (move_y mv) of
        Inl e \<Rightarrow> Inl e
      | Inr neighbors \<Rightarrow>
          (case savebridge_bridges b col rest of
             Inl e \<Rightarrow> Inl e
           | Inr ms \<Rightarrow>
               Inr (map (\<lambda>_. mv)
                      (filter (\<lambda>(n1, n2). colour n1 = Some col \<and> colour n2 = Some col \<and>
                                            is_bridge n1 n2 mv)
                         (combinations2 neighbors)) @ ms)))"

fun savebridge_wheels :: "Board \<Rightarrow> Colour \<Rightarrow> Move list \<Rightarrow> exn + Move list" where
  "savebridge_wheels b col [] = Inr []"
| "savebridge_wheels b col (mv # rest) =
     (case completes_wheel b (move_x mv) (move_y mv) col of
        Inl e \<Rightarrow> Inl e
      | Inr w \<Rightarrow>
          (case savebridge_wheels b col rest of
             Inl e \<Rightarrow> Inl e
           | Inr ms \<Rightarrow> Inr ((if w then [mv] else []) @ ms)))"

definition savebridge :: "Board \<Rightarrow> Colour \<Rightarrow> Move list \<Rightarrow> exn + Move list" where
  "savebridge b col legal_moves =
     (case savebridge_bridges b col legal_moves of
        Inl e \<Rightarrow> Inl e
      | Inr bs \<Rightarrow>
          (case savebridge_wheels b col legal_moves of
             Inl e \<Rightarrow> Inl e
           | Inr ws \<Rightarrow> Inr (bs @ ws)))"

text \<open>\<open>MCTS._default_policy\<close>; \<open>r\<close> is the draw of the one \<open>random.choice\<close> it makes.\<close>

definition default_policy :: "Board \<Rightarrow> Colour \<Rightarrow> Move list \<Rightarrow> nat \<Rightarrow> exn + Move" where
  "default_policy b col legal_moves r =
     (case savebridge b col legal_moves of
        Inl e \<Rightarrow> Inl e
      | Inr savebridge_moves \<Rightarrow>
          if 0 < length savebridge_moves then random_choice r savebridge_moves
          else random_choice r legal_moves)"

text \<open>
  \<open>MCTS._expand\<close>. The result is the arena, the node returned and the number of draws
  consumed so far (\<open>k\<close> before the call).
\<close>

definition expand :: "MCTS \<Rightarrow> (nat \<Rightarrow> nat) \<Rightarrow> heap \<Rightarrow> ref \<Rightarrow> nat \<Rightarrow> exn + (heap \<times> ref \<times> nat)" where
  "expand self rnd h node k =
     (case get_legal_moves (board self) of
        Inl e \<Rightarrow> Inl e
      | Inr legal_moves \<Rightarrow>
          (case deref h node of
             Inl e \<Rightarrow> Inl e
           | Inr nd \<Rightarrow>
               (case derefs h (children nd) of
                  Inl e \<Rightarrow> Inl e
                | Inr cs \<Rightarrow>
                    (let unvisited_moves =
                           filter (\<lambda>mv. Some mv \<notin> set (map move cs)) legal_moves
                     in if 0 < length unvisited_moves
                        then (case random_choice (rnd k) unvisited_moves of
                                Inl e \<Rightarrow> Inl e
                              | Inr new_move \<Rightarrow>
                                  (case add_child h node new_move of
                                     Inl e \<Rightarrow> Inl e
                                   | Inr (h', child_node) \<Rightarrow> Inr (h', child_node, Suc k)))
                        else Inr (h, node, k)))))"

text \<open>
  \<open>MCTS._select\<close>: the descent \<open>while node.is_fully_expanded(legal_moves): node =
  node.best_child()\<close>, then \<open>_expand\<close>.
\<close>

partial_function (option) select_descend ::
  "(int \<Rightarrow> int \<Rightarrow> int \<Rightarrow> 's::linorder) \<Rightarrow> heap \<Rightarrow> Move list \<Rightarrow> ref \<Rightarrow> (exn + ref) option" where
  "select_descend uct h legal_moves node =
     (case deref h node of
        Inl e \<Rightarrow> Some (Inl e)
      | Inr nd \<Rightarrow>
          if is_fully_expanded nd legal_moves
          then (case best_child uct h node of
                  Inl e \<Rightarrow> Some (Inl e)
                | Inr c \<Rightarrow> select_descend uct h legal_moves c)
          else Some (Inr node))"

definition select ::
  "('s::linorder) env \<Rightarrow> MCTS \<Rightarrow> heap \<Rightarrow> ref \<Rightarrow> nat \<Rightarrow> (exn + (heap \<times> ref \<times> nat)) option" where
  "select ev self h node k =
     (case get_legal_moves (board self) of
        Inl e \<Rightarrow> Some (Inl e)
      | Inr legal_moves \<Rightarrow>
          (case select_descend (uct_score ev) h legal_moves node of
             None \<Rightarrow> None
           | Some (Inl e) \<Rightarrow> Some (Inl e)
           | Some (Inr n) \<Rightarrow> Some (expand self (rand ev) h n k)))"

text \<open>
  \<open>MCTS._simulate\<close>: on a copy of the board, play the node's move, then moves of the
  default policy for alternating colours until \<open>has_ended\<close> holds for one of them.
\<close>

partial_function (option) simulate_playout ::
  "'s env \<Rightarrow> Board \<Rightarrow> Colour \<Rightarrow> nat \<Rightarrow> (exn + (Board \<times> nat)) option" where
  "simulate_playout ev simulation_board current_colour k =
     (if \<not> has_ended ev simulation_board current_colour \<and>
         \<not> has_ended ev simulation_board (opposite current_colour)
      then (case get_legal_moves simulation_board of
              Inl e \<Rightarrow> Some (Inl e)
            | Inr legal_moves \<Rightarrow>
                (case default_policy simulation_board current_colour legal_moves (rand ev k) of
                   Inl e \<Rightarrow> Some (Inl e)
                 | Inr mv \<Rightarrow>
                     (case set_tile_colour ev simulation_board (move_x mv) (move_y mv) current_colour of
                        Inl e \<Rightarrow> Some (Inl e)
                      | Inr b' \<Rightarrow> simulate_playout ev b' (opposite current_colour) (Suc k))))
      else Some (Inr (simulation_board, k)))"

definition simulate :: "'s env \<Rightarrow> MCTS \<Rightarrow> heap \<Rightarrow> ref \<Rightarrow> nat \<Rightarrow> (exn + (int \<times> nat)) option" where
  "simulate ev self h node k =
     (case deref h node of
        Inl e \<Rightarrow> Some (Inl e)
      | Inr nd \<Rightarrow>
          (case move nd of
             None \<Rightarrow> Some (Inl AttributeError)
           | Some mv \<Rightarrow>
               (case set_tile_colour ev (board self) (move_x mv) (move_y mv) (mcts_colour self) of
                  Inl e \<Rightarrow> Some (Inl e)
                | Inr simulation_board \<Rightarrow>
                    (case simulate_playout ev simulation_board (opposite (mcts_colour self)) k of
                       None \<Rightarrow> None
                     | Some (Inl e) \<Rightarrow> Some (Inl e)
                     | Some (Inr (final_board, k')) \<Rightarrow>
                         Some (Inr (if get_winner ev final_board = Some (mcts_colour self)
                                    then 1 else 0, k'))))))"

text \<open>
  \<open>MCTS.run\<close>. The state of the loop is the iteration count, the arena, the draws consumed
  and the clock readings consumed. Each test of the loop condition reads the clock once.
  A clock that never reaches the budget gives a loop that never returns (\<open>None\<close>).
\<close>

partial_function (option) run_loop ::
  "('s::linorder) env \<Rightarrow> MCTS \<Rightarrow> ref \<Rightarrow> rat \<Rightarrow> nat \<times> heap \<times> nat \<times> nat
     \<Rightarrow> (exn + (nat \<times> heap \<times> nat \<times> nat)) option" where
  "run_loop ev self root_node start_time st =
     (case st of (iterations, h, k, t) \<Rightarrow>
        if clock ev t - start_time < turn_length self
        then (case select ev self h root_node k of
                None \<Rightarrow> None
              | Some (Inl e) \<Rightarrow> Some (Inl e)
              | Some (Inr (h1, node, k1)) \<Rightarrow>
                  (case simulate ev self h1 node k1 of
                     None \<Rightarrow> None
                   | Some (Inl e) \<Rightarrow> Some (Inl e)
                   | Some (Inr (result, k2)) \<Rightarrow>
                       (case backpropagate h1 (Some node) result of
                          None \<Rightarrow> None
                        | Some (Inl e) \<Rightarrow> Some (Inl e)
                        | Some (Inr h2) \<Rightarrow>
                            run_loop ev self root_node start_time (iterations + 1, h2, k2, Suc t))))
        else Some (Inr (iterations, h, k, Suc t)))"

text \<open>
  The choice after the loop: \<open>max(root.children, key=lambda child: child.visits)\<close>.
\<close>

definition most_visited_child :: "heap \<Rightarrow> ref \<Rightarrow> exn + ref" where
  "most_visited_child h root_node =
     (case deref h root_node of
        Inl e \<Rightarrow> Inl e
      | Inr nd \<Rightarrow>
          (case derefs h (children nd) of
             Inl e \<Rightarrow> Inl e
           | Inr cs \<Rightarrow> py_max (\<lambda>child. visits (h ! child)) (children nd)))"

definition run ::
  "('s::linorder) env \<Rightarrow> MCTS \<Rightarrow> heap \<Rightarrow> ref \<Rightarrow> nat \<Rightarrow> nat
     \<Rightarrow> (exn + (ref \<times> nat \<times> heap \<times> nat \<times> nat)) option" where
  "run ev self h root_node k t =
     (let start_time = clock ev t in
      case run_loop ev self root_node start_time (0, h, k, Suc t) of
        None \<Rightarrow> None
      | Some (Inl e) \<Rightarrow> Some (Inl e)
      | Some (Inr (iterations, h', k', t')) \<Rightarrow>
          (case most_visited_child h' root_node of
             Inl e \<Rightarrow> Some (Inl e)
           | Inr best \<Rightarrow> Some (Inr (best, iterations, h', k', t'))))"

section \<open>MCTSAgent\<close>


text \<open>
  \<open>MCTSAgent.update_tree\<close>: the first child whose move equals the given move, or else a
  new node (which is not appended to \<open>tree.children\<close>).
\<close>

definition update_tree :: "heap \<Rightarrow> ref \<Rightarrow> Move \<Rightarrow> exn + (heap \<times> ref)" where
  "update_tree h tr mv =
     (case deref h tr of
        Inl e \<Rightarrow> Inl e
      | Inr nd \<Rightarrow>
          (case derefs h (children nd) of
             Inl e \<Rightarrow> Inl e
           | Inr cs \<Rightarrow>
               (case find (\<lambda>child. move (h ! child) = Some mv) (children nd) of
                  Some child \<Rightarrow> Inr (h, child)
                | None \<Rightarrow> Inr (TreeNode_init h (Some mv) (Some tr)))))"


section \<open>MCTS (mcts.py)\<close>

text \<open>
  The second search class builds its tree from \<open>agents.Group23.treenode.TreeNode\<close>, which
  is not among the sources. The functions below read only the fields \<open>children\<close>, \<open>move\<close>,
  \<open>visits\<close> and \<open>wins\<close> of a node, which the record \<open>TreeNode\<close> above has.
\<close>

text \<open>
  \<open>distribution_board[x][y] += v\<close> on a list of rows, with Python's indexing.
\<close>

definition board_add :: "int list list \<Rightarrow> int \<Rightarrow> int \<Rightarrow> int \<Rightarrow> exn + int list list" where
  "board_add d x y v =
     (let n = int (length d); i = (if x < 0 then n + x else x) in
      if 0 \<le> i \<and> i < n
      then (let row = d ! nat i; m = int (length row); j = (if y < 0 then m + y else y) in
            if 0 \<le> j \<and> j < m
            then Inr (d[nat i := row[nat j := row ! nat j + v]])
            else Inl IndexError)
      else Inl IndexError)"

text \<open>
  \<open>MCTS._count_visits_DFS\<close>: for every child of the node, add the child's visits to the
  cell of its move, then recurse into the child. The recursion follows \<open>children\<close>; \<open>fuel\<close>
  bounds its depth, and \<open>None\<close> says that the fuel did not reach the leaves.
\<close>

fun count_visits_DFS :: "nat \<Rightarrow> heap \<Rightarrow> ref \<Rightarrow> int list list \<Rightarrow> (exn + int list list) option"
  and count_visits_children :: "nat \<Rightarrow> heap \<Rightarrow> ref list \<Rightarrow> int list list \<Rightarrow> (exn + int list list) option"
where
  "count_visits_DFS 0 h node d = None"
| "count_visits_DFS (Suc fuel) h node d =
     (case deref h node of
        Inl e \<Rightarrow> Some (Inl e)
      | Inr nd \<Rightarrow> count_visits_children fuel h (children nd) d)"
| "count_visits_children fuel h [] d = Some (Inr d)"
| "count_visits_children fuel h (child # rest) d =
     (case deref h child of
        Inl e \<Rightarrow> Some (Inl e)
      | Inr cn \<Rightarrow>
          (case move cn of
             None \<Rightarrow> Some (Inl AttributeError)
           | Some mv \<Rightarrow>
               (case board_add d (move_x mv) (move_y mv) (visits cn) of
                  Inl e \<Rightarrow> Some (Inl e)
                | Inr d1 \<Rightarrow>
                    (case count_visits_DFS fuel h child d1 of
                       None \<Rightarrow> None
                     | Some (Inl e) \<Rightarrow> Some (Inl e)
                     | Some (Inr d2) \<Rightarrow> count_visits_children fuel h rest d2))))"

text \<open>
  \<open>MCTS._get_visit_count_distribution\<close>: the counts on an 11 by 11 grid, each divided by
  their total. Python divides in floating point; the quotients are kept exact here.
\<close>

definition get_visit_count_distribution :: "nat \<Rightarrow> heap \<Rightarrow> ref \<Rightarrow> (exn + rat list list) option" where
  "get_visit_count_distribution fuel h node =
     (let distribution_board = replicate 11 (replicate 11 0) in
      case count_visits_DFS fuel h node distribution_board of
        None \<Rightarrow> None
      | Some (Inl e) \<Rightarrow> Some (Inl e)
      | Some (Inr d) \<Rightarrow>
          (let total_visits = sum_list (map sum_list d) in
           if total_visits = 0 then Some (Inl ZeroDivisionError)
           else Some (Inr (map (map (\<lambda>v. of_int v / of_int total_visits)) d))))"

text \<open>
  The choice after the loop of \<open>MCTS.run\<close> in mcts.py:
  \<open>max(root.children, key=lambda child: child.wins / child.visits)\<close>, under the comment
  ``Choose the most visited child as the best move''. The key is the quotient of two
  integers, kept exact here.
\<close>

definition best_win_rate_child :: "heap \<Rightarrow> ref \<Rightarrow> exn + ref" where
  "best_win_rate_child h root_node =
     (case deref h root_node of
        Inl e \<Rightarrow> Inl e
      | Inr nd \<Rightarrow>
          (case derefs h (children nd) of
             Inl e \<Rightarrow> Inl e
           | Inr cs \<Rightarrow>
               if cs = [] then Inl ValueError
               else if list_ex (\<lambda>child. visits child = 0) cs then Inl ZeroDivisionError
               else py_max (\<lambda>child. (of_int (wins (h ! child)) / of_int (visits (h ! child)) :: rat))
                      (children nd)))"

text \<open>
  What \<open>MCTS.run\<close> of mcts.py returns from the tree its loop has built (lines 64 to 74):
  the move of the chosen child and the distribution.
\<close>

definition run_result :: "nat \<Rightarrow> heap \<Rightarrow> ref \<Rightarrow> (exn + (Move option \<times> rat list list)) option" where
  "run_result fuel h root_node =
     (case best_win_rate_child h root_node of
        Inl e \<Rightarrow> Some (Inl e)
      | Inr best \<Rightarrow>
          (case get_visit_count_distribution fuel h root_node of
             None \<Rightarrow> None
           | Some (Inl e) \<Rightarrow> Some (Inl e)
           | Some (Inr pd_distribution) \<Rightarrow> Some (Inr (move (h ! best), pd_distribution))))"

text \<open>
  The spec's distribution: each cell holding the move of a child of the root gets that
  child's visits divided by the total visits of the root's children, every other cell 0.
\<close>

definition child_visit_distribution :: "heap \<Rightarrow> ref \<Rightarrow> rat list list" where
  "child_visit_distribution h root_node =
     (let cs = map ((!) h) (children (h ! root_node));
          total = sum_list (map visits cs)
      in map (\<lambda>i. map (\<lambda>j. of_int (sum_list (map visits
                                 (filter (\<lambda>c. move c = Some (Move (int i) (int j))) cs)))
                            / of_int total)
                    [0..<11])
             [0..<11])"

section \<open>AlphaZeroAgent: the time allowed for a turn\<close>

text \<open>
  Python's floats are IEEE 754 binary64 numbers, each of them a rational. The rounded
  operations that \<open>allowed_time\<close> applies to them are parameters: \<open>f_pow\<close> for
  \<open>decay_rate ** i\<close>, \<open>f_sum\<close> for \<open>sum(weights)\<close>, \<open>f_div\<close> for \<open>/\<close> and \<open>f_mul\<close> for
  \<open>*\<close>.
\<close>

record float_ops =
  f_pow :: "rat \<Rightarrow> int \<Rightarrow> rat"
  f_sum :: "rat list \<Rightarrow> rat"
  f_div :: "rat \<Rightarrow> rat \<Rightarrow> rat"
  f_mul :: "rat \<Rightarrow> rat \<Rightarrow> rat"

text \<open>The binary64 number that the literal \<open>0.97\<close> denotes.\<close>

definition decay_rate :: rat where
  "decay_rate = 4368491638549381 / 4503599627370496"

text \<open>
  \<open>AlphaZeroAgent.allowed_time\<close>. An index outside the weights raises IndexError, and
  \<open>turn_number = 0\<close> reads the last weight, as \<open>weights[-1]\<close> does.
\<close>

definition allowed_time :: "float_ops \<Rightarrow> int \<Rightarrow> int \<Rightarrow> rat \<Rightarrow> exn + rat" where
  "allowed_time fo turn_number total_turns total_time =
     (let weights = map (\<lambda>i. f_pow fo decay_rate (int i)) [0..<nat total_turns];
          total_weight = f_sum fo weights
      in case py_nth weights (turn_number - 1) of
           Inl e \<Rightarrow> Inl e
         | Inr turn_weight \<Rightarrow>
             if total_weight = 0 then Inl ZeroDivisionError
             else Inr (f_mul fo (f_div fo turn_weight total_weight) total_time))"

text \<open>
  The standard model of floating-point arithmetic: the result of an operation differs
  from the exact result by at most the fraction \<open>eps\<close> of it. \<open>float_model eps fo\<close> asks
  this of the four operations on the operands that occur here: powers of the decay rate
  with an exponent below 121, sums of at most 121 numbers, quotients and products, all
  of numbers between \<open>2 ^ -40\<close> and \<open>2 ^ 40\<close>, where binary64 arithmetic neither
  overflows nor underflows. In binary64 one rounding has a relative error of at most
  \<open>2 ^ -53\<close>.
\<close>

definition close_to :: "rat \<Rightarrow> rat \<Rightarrow> rat \<Rightarrow> bool" where
  "close_to eps approx exact = (\<bar>approx - exact\<bar> \<le> eps * \<bar>exact\<bar>)"

definition in_range :: "rat \<Rightarrow> bool" where
  "in_range x = (1 / 2 ^ 40 \<le> x \<and> x \<le> 2 ^ 40)"

definition float_model :: "rat \<Rightarrow> float_ops \<Rightarrow> bool" where
  "float_model eps fo =
     ((\<forall>i. 0 \<le> i \<and> i < 121 \<longrightarrow> close_to eps (f_pow fo decay_rate i) (decay_rate ^ nat i)) \<and>
      (\<forall>xs. length xs \<le> 121 \<and> list_all in_range xs \<longrightarrow>
            close_to eps (f_sum fo xs) (sum_list xs)) \<and>
      (\<forall>a b. in_range a \<and> in_range b \<longrightarrow> close_to eps (f_div fo a b) (a / b)) \<and>
      (\<forall>a b. in_range a \<and> in_range b \<longrightarrow> close_to eps (f_mul fo a b) (a * b)))"

text \<open>
  Rounding to the nearest binary64 number, ties to even: a number in the binade
  \<open>2 ^ k \<le> \<bar>x\<bar> < 2 ^ (k + 1)\<close> goes to the nearest multiple of \<open>2 ^ (k - 52)\<close>. The
  binades from \<open>2 ^ -64\<close> to \<open>2 ^ 65\<close> are looked through, which covers every number that
  occurs here; a number outside them, and 0, is left as it is.
\<close>

definition binade :: "rat \<Rightarrow> int option" where
  "binade x = find (\<lambda>k. 2 powi k \<le> x \<and> x < 2 powi (k + 1)) [-64..64]"

definition round_half_even :: "rat \<Rightarrow> int" where
  "round_half_even m =
     (let f = \<lfloor>m\<rfloor>; d = m - of_int f in
      if d < 1 / 2 then f else if 1 / 2 < d then f + 1 else if even f then f else f + 1)"

definition fl :: "rat \<Rightarrow> rat" where
  "fl x =
     (case binade \<bar>x\<bar> of
        None \<Rightarrow> x
      | Some k \<Rightarrow> sgn x * of_int (round_half_even (\<bar>x\<bar> / 2 powi (k - 52))) * 2 powi (k - 52))"

text \<open>
  One instance of the model: every operation is the exact one followed by rounding, and
  the sum is taken from left to right starting at 0.
\<close>

definition binary64_ops :: float_ops where
  "binary64_ops =
     \<lparr>f_pow = (\<lambda>x i. fl (x ^ nat i)),
      f_sum = foldl (\<lambda>acc x. fl (acc + x)) 0,
      f_div = (\<lambda>a b. fl (a / b)),
      f_mul = (\<lambda>a b. fl (a * b))\<rparr>"

text \<open>The times allowed for the turns 1 to 121 of a game of 121 turns and 300 seconds.\<close>

definition allowed_times :: "float_ops \<Rightarrow> (exn + rat) list" where
  "allowed_times fo = map (\<lambda>i. allowed_time fo (int i) 121 300) [1..<122]"

section \<open>Example inputs and spec-side predicates\<close>

text \<open>
  The spec's reading of ``fully expanded'': every candidate move has a child of the node
  that carries it.
\<close>

definition every_candidate_has_child :: "heap \<Rightarrow> TreeNode \<Rightarrow> Move list \<Rightarrow> bool" where
  "every_candidate_has_child h nd candidate_moves =
     list_all (\<lambda>mv. list_ex (\<lambda>child. move (h ! child) = Some mv) (children nd)) candidate_moves"

text \<open>
  A root that was visited 7 times, with a child for \<open>Move 0 0\<close> and a child for
  \<open>Move 3 4\<close>.
\<close>

definition ex_reuse_heap :: heap where
  "ex_reuse_heap =
     [\<lparr>move = None, parent = None, children = [1, 2], visits = 7, wins = 3\<rparr>,
      \<lparr>move = Some (Move 0 0), parent = Some 0, children = [], visits = 2, wins = 1\<rparr>,
      \<lparr>move = Some (Move 3 4), parent = Some 0, children = [], visits = 5, wins = 2\<rparr>]"

text \<open>
  Modelled from the spec: the board of \<open>src.Board\<close> before any move, a grid of
  \<open>n\<close> by \<open>n\<close> tiles that know their coordinates and have no colour.
\<close>

definition empty_board :: "nat \<Rightarrow> Board" where
  "empty_board n =
     \<lparr>tiles = map (\<lambda>i. map (\<lambda>j. \<lparr>tile_x = int i, tile_y = int j, colour = None\<rparr>) [0..<n]) [0..<n],
      bsize = int n\<rparr>"

text \<open>A search object on the empty 2 by 2 board.\<close>

definition ex_mcts :: MCTS where
  "ex_mcts = \<lparr>board = empty_board 2, mcts_colour = RED, turn_length = 1\<rparr>"

text \<open>
  A board as \<open>src.Board\<close> builds it: \<open>size\<close> rows of \<open>size\<close> tiles. (The agents index
  \<open>board.tiles\<close> after comparing with \<open>board.size\<close>.)
\<close>

definition board_ok :: "Board \<Rightarrow> bool" where
  "board_ok b =
     (0 \<le> bsize b \<and> int (length (tiles b)) = bsize b \<and>
      list_all (\<lambda>row. int (length row) = bsize b) (tiles b))"

text \<open>The cells of an \<open>n\<close> by \<open>n\<close> board, row by row.\<close>

definition all_cells :: "nat \<Rightarrow> Move list" where
  "all_cells n = concat (map (\<lambda>i. map (\<lambda>j. Move (int i) (int j)) [0..<n]) [0..<n])"

text \<open>
  A 3 by 3 board with red stones at (0,0) and (2,2): the cell (1,1) between them passes
  the bridge test. \<open>ex_bridge_legal\<close> lists its empty cells.
\<close>

definition ex_bridge_board :: Board where
  "ex_bridge_board =
     \<lparr>tiles = map (\<lambda>i. map (\<lambda>j. \<lparr>tile_x = int i, tile_y = int j,
                                     colour = (if i = j \<and> i \<noteq> 1 then Some RED else None)\<rparr>)
                          [0..<3]) [0..<3],
      bsize = 3\<rparr>"

definition ex_bridge_legal :: "Move list" where
  "ex_bridge_legal = [Move 0 1, Move 0 2, Move 1 0, Move 1 1, Move 1 2, Move 2 0, Move 2 1]"

text \<open>
  A 3 by 3 board with red stones at (0,1), (1,0) and (1,2): the cell (1,1) has three red
  neighbours, no two of them across it. \<open>ex_wheel_legal\<close> lists its empty cells.
\<close>

definition ex_wheel_board :: Board where
  "ex_wheel_board =
     \<lparr>tiles = map (\<lambda>i. map (\<lambda>j. \<lparr>tile_x = int i, tile_y = int j,
                                     colour = (if (i, j) \<in> {(0, 1), (1, 0), (1, 2)}
                                               then Some RED else None)\<rparr>)
                          [0..<3]) [0..<3],
      bsize = 3\<rparr>"

definition ex_wheel_legal :: "Move list" where
  "ex_wheel_legal = [Move 0 0, Move 0 2, Move 1 1, Move 2 0, Move 2 1, Move 2 2]"

text \<open>
  Modelled from the spec: the tile that \<open>src.Board\<close> keeps at \<open>tiles[i][j]\<close> has the
  coordinates \<open>x = i\<close> and \<open>y = j\<close>.
\<close>

definition tiles_placed :: "Board \<Rightarrow> bool" where
  "tiles_placed b =
     list_all (\<lambda>(i, row). list_all (\<lambda>(j, tile). tile_x tile = int i \<and> tile_y tile = int j)
                                    (enumerate 0 row))
       (enumerate 0 (tiles b))"

text \<open>
  The two templates, cell by cell. A cell holds a colour when it is on the board and its
  tile has that colour. A move secures a bridge of a colour when the two cells across it
  on the diagonal, \<open>(x - 1, y - 1)\<close> and \<open>(x + 1, y + 1)\<close>, both hold the colour: of the six
  cells around a cell these are the only two that are two apart in both coordinates, with
  the cell half-way between them. A move completes a wheel when at least three of the six
  cells around it hold the colour.
\<close>

definition coloured_at :: "Board \<Rightarrow> Colour \<Rightarrow> int \<Rightarrow> int \<Rightarrow> bool" where
  "coloured_at b col x y =
     (0 \<le> x \<and> x < bsize b \<and> 0 \<le> y \<and> y < bsize b \<and>
      colour (tiles b ! nat x ! nat y) = Some col)"

definition bridge_securing :: "Board \<Rightarrow> Colour \<Rightarrow> Move \<Rightarrow> bool" where
  "bridge_securing b col mv =
     (coloured_at b col (move_x mv - 1) (move_y mv - 1) \<and>
      coloured_at b col (move_x mv + 1) (move_y mv + 1))"

definition wheel_completing :: "Board \<Rightarrow> Colour \<Rightarrow> Move \<Rightarrow> bool" where
  "wheel_completing b col mv =
     (3 \<le> length (filter (\<lambda>(dx, dy). coloured_at b col (move_x mv + dx) (move_y mv + dy))
                     [(-1, -1), (-1, 0), (0, -1), (0, 1), (1, 0), (1, 1)]))"

text \<open>
  A root with a child for (0,0), visited 10 times with 6 wins, and a child for (0,1),
  visited 3 times with 2 wins; the first child has a child of its own for (1,1), visited 4
  times.
\<close>

definition ex_stats_heap :: heap where
  "ex_stats_heap =
     [\<lparr>move = None, parent = None, children = [1, 2], visits = 13, wins = 6\<rparr>,
      \<lparr>move = Some (Move 0 0), parent = Some 0, children = [3], visits = 10, wins = 6\<rparr>,
      \<lparr>move = Some (Move 0 1), parent = Some 0, children = [], visits = 3, wins = 2\<rparr>,
      \<lparr>move = Some (Move 1 1), parent = Some 1, children = [], visits = 4, wins = 2\<rparr>]"

text \<open>
  An environment to run the search in: \<open>set_tile_colour\<close> assigns the colour of the tile at
  \<open>tiles[x][y]\<close>, the game has ended when no tile is empty, red is the winner, all UCT
  scores are equal, the clock advances one second per reading and every draw is 0.
\<close>

definition assign_tile :: "Board \<Rightarrow> int \<Rightarrow> int \<Rightarrow> Colour \<Rightarrow> exn + Board" where
  "assign_tile b x y col =
     (case tile_at b x y of
        Inl e \<Rightarrow> Inl e
      | Inr tile \<Rightarrow>
          (let i = nat (if x < 0 then int (length (tiles b)) + x else x);
               row = tiles b ! i;
               j = nat (if y < 0 then int (length row) + y else y)
           in Inr (b\<lparr>tiles := (tiles b)[i := row[j := tile\<lparr>colour := Some col\<rparr>]]\<rparr>)))"

definition board_full :: "Board \<Rightarrow> bool" where
  "board_full b = list_all (list_all (\<lambda>tile. colour tile \<noteq> None)) (tiles b)"


definition ex_env :: "int env" where
  "ex_env =
     \<lparr>uct_score = (\<lambda>w v p. 0),
      set_tile_colour = assign_tile,
      has_ended = (\<lambda>b col. board_full b),
      get_winner = (\<lambda>b. Some RED),
      clock = (\<lambda>n. of_nat n),
      rand = (\<lambda>n. 0)\<rparr>"

definition ex_root_heap :: heap where
  "ex_root_heap = [\<lparr>move = None, parent = None, children = [], visits = 0, wins = 0\<rparr>]"


text \<open>The unfolding equations of the loops serve as code equations.\<close>

declare backpropagate.simps [code]

declare select_descend.simps [code]

declare simulate_playout.simps [code]

declare run_loop.simps [code]

section \<open>Properties\<close>

subsection \<open>Backpropagation\<close>

lemma parent_chain_cong:
  assumes "parent_chain h a ps" and "length h' = length h"
    and "\<And>i. i < length h \<Longrightarrow> parent (h' ! i) = parent (h ! i)"
  shows "parent_chain h' a ps"
  using assms
proof (induction rule: parent_chain.induct)
  case (chain_root a h)
  then show ?case by (simp add: parent_chain.chain_root)
next
  case (chain_step a h p ps)
  then show ?case by (simp add: parent_chain.chain_step)
qed

lemma parent_chain_bump:
  assumes "parent_chain h p ps"
  shows "parent_chain (h[a := (h ! a)\<lparr>visits := v, wins := w\<rparr>]) p ps"
  using assms
  by (rule parent_chain_cong) (cases "a < length h"; auto simp: nth_list_update)+

lemma parent_chain_bounds: "parent_chain h a ps \<Longrightarrow> ps \<noteq> [] \<and> hd ps = a \<and> (\<forall>b\<in>set ps. b < length h)"
  by (induction rule: parent_chain.induct) auto

lemma parent_chain_unique: "parent_chain h a ps \<Longrightarrow> parent_chain h a qs \<Longrightarrow> ps = qs"
proof (induction arbitrary: qs rule: parent_chain.induct)
  case (chain_root a h)
  then show ?case by (auto elim: parent_chain.cases)
next
  case (chain_step a h p ps)
  from chain_step.prems chain_step.hyps(1,2) obtain qs' where "qs = a # qs'" "parent_chain h p qs'"
    by (auto elim: parent_chain.cases)
  with chain_step.IH show ?case by simp
qed

lemma parent_chain_suffix:
  "parent_chain h a ps \<Longrightarrow> b \<in> set ps \<Longrightarrow> \<exists>qs. parent_chain h b qs \<and> length qs \<le> length ps"
proof (induction rule: parent_chain.induct)
  case (chain_root a h)
  then show ?case by (auto intro: parent_chain.chain_root)
next
  case (chain_step a h p ps)
  show ?case
  proof (cases "b = a")
    case True
    then show ?thesis using chain_step.hyps parent_chain.chain_step by blast
  next
    case False
    with chain_step.prems have "b \<in> set ps" by simp
    with chain_step.IH obtain qs where "parent_chain h b qs" "length qs \<le> length ps" by blast
    then show ?thesis by (intro exI[of _ qs]) simp
  qed
qed

lemma parent_chain_distinct: "parent_chain h a ps \<Longrightarrow> distinct ps"
proof (induction rule: parent_chain.induct)
  case (chain_root a h)
  then show ?case by simp
next
  case (chain_step a h p ps)
  have "a \<notin> set ps"
  proof
    assume "a \<in> set ps"
    with chain_step.hyps(3) obtain qs where qs: "parent_chain h a qs" "length qs \<le> length ps"
      using parent_chain_suffix by blast
    have "parent_chain h a (a # ps)" using chain_step.hyps by (rule parent_chain.chain_step)
    with qs(1) have "qs = a # ps" by (rule parent_chain_unique)
    with qs(2) show False by simp
  qed
  with chain_step.IH show ?case by simp
qed

lemma backpropagate_bump_path:
  "parent_chain h a ps \<Longrightarrow> backpropagate h (Some a) r = Some (Inr (bump_path h ps r))"
proof (induction ps arbitrary: h a r)
  case Nil
  then show ?case using parent_chain_bounds by blast
next
  case (Cons b ps)
  let ?h1 = "h[a := (h ! a)\<lparr>visits := visits (h ! a) + 1, wins := wins (h ! a) + r\<rparr>]"
  from Cons.prems show ?case
  proof (cases rule: parent_chain.cases)
    case chain_root
    then show ?thesis
      by (subst backpropagate.simps) (simp add: backpropagate.simps)
  next
    case (chain_step p)
    then have "parent_chain ?h1 p ps" using parent_chain_bump by blast
    then have "backpropagate ?h1 (Some p) (1 - r) = Some (Inr (bump_path ?h1 ps (1 - r)))"
      by (rule Cons.IH)
    with chain_step show ?thesis
      by (subst backpropagate.simps) simp
  qed
qed

lemma length_bump_path: "length (bump_path h ps r) = length h"
  by (induction h ps r rule: bump_path.induct) simp_all

lemma bump_path_other: "a \<notin> set ps \<Longrightarrow> bump_path h ps r ! a = h ! a"
  by (induction h ps r rule: bump_path.induct) simp_all

lemma bump_path_nth:
  "distinct ps \<Longrightarrow> \<forall>b\<in>set ps. b < length h \<Longrightarrow> i < length ps \<Longrightarrow>
   bump_path h ps r ! (ps ! i) =
     (h ! (ps ! i))\<lparr>visits := visits (h ! (ps ! i)) + 1,
                    wins := wins (h ! (ps ! i)) + (if even i then r else 1 - r)\<rparr>"
proof (induction h ps r arbitrary: i rule: bump_path.induct)
  case (1 h r)
  then show ?case by simp
next
  case (2 h a ps r)
  show ?case
  proof (cases i)
    case 0
    with "2.prems" show ?thesis by (simp add: bump_path_other)
  next
    case (Suc j)
    with "2.prems" have j: "j < length ps" "ps ! j \<noteq> a" by auto
    with "2.prems" "2.IH"[of j] Suc show ?thesis by simp
  qed
qed


text \<open>
  C2. One backpropagation pass started at a node \<open>n\<close> whose parent chain \<open>path\<close> ends at
  the root returns, and: the node at depth \<open>i\<close> of the path gets its visit count raised by
  exactly 1 and its win accumulator raised by \<open>r\<close> when \<open>i\<close> is even and by \<open>1 - r\<close> when
  \<open>i\<close> is odd, every other field of it unchanged; the values added at two consecutive
  depths sum to 1; and every node off the path is unchanged. This holds for every integer
  \<open>r\<close>, in particular for the results 0 and 1.
\<close>

theorem backpropagate_path:
  assumes "parent_chain h n path"
  shows "\<exists>h'. backpropagate h (Some n) r = Some (Inr h') \<and> length h' = length h \<and>
           (\<forall>i<length path.
              h' ! (path ! i) =
                (h ! (path ! i))\<lparr>visits := visits (h ! (path ! i)) + 1,
                                 wins := wins (h ! (path ! i)) + (if even i then r else 1 - r)\<rparr>) \<and>
           (\<forall>i. Suc i < length path \<longrightarrow>
              (wins (h' ! (path ! i)) - wins (h ! (path ! i))) +
              (wins (h' ! (path ! Suc i)) - wins (h ! (path ! Suc i))) = 1) \<and>
           (\<forall>a. a \<notin> set path \<longrightarrow> h' ! a = h ! a)"
proof -
  let ?h' = "bump_path h path r"
  have run: "backpropagate h (Some n) r = Some (Inr ?h')"
    using assms by (rule backpropagate_bump_path)
  have d: "distinct path" using assms by (rule parent_chain_distinct)
  have b: "\<forall>b\<in>set path. b < length h" using assms parent_chain_bounds by blast
  have nth: "?h' ! (path ! i) =
                (h ! (path ! i))\<lparr>visits := visits (h ! (path ! i)) + 1,
                                 wins := wins (h ! (path ! i)) + (if even i then r else 1 - r)\<rparr>"
    if "i < length path" for i
    using d b that by (rule bump_path_nth)
  have alt: "(wins (?h' ! (path ! i)) - wins (h ! (path ! i))) +
              (wins (?h' ! (path ! Suc i)) - wins (h ! (path ! Suc i))) = 1"
    if "Suc i < length path" for i
  proof -
    from that have "i < length path" by simp
    from nth[OF this] nth[OF that] show ?thesis by simp
  qed
  from run nth alt show ?thesis
    by (intro exI[of _ ?h']) (simp add: length_bump_path bump_path_other)
qed

theorem backpropagate_path_witness:
  "parent_chain ex_chain_heap 2 [2, 1, 0] \<and>
   (\<exists>h'. backpropagate ex_chain_heap (Some 2) 1 = Some (Inr h') \<and> length h' = 3 \<and>
      visits (h' ! 2) = 1 \<and> wins (h' ! 2) = 1 \<and>
      visits (h' ! 1) = 1 \<and> wins (h' ! 1) = 0 \<and>
      visits (h' ! 0) = 1 \<and> wins (h' ! 0) = 1 \<and>
      children (h' ! 0) = [1] \<and> parent (h' ! 2) = Some 1)"
proof -
  have c0: "parent_chain ex_chain_heap 0 [0]"
    by (rule parent_chain.chain_root) (simp_all add: ex_chain_heap_def)
  have c1: "parent_chain ex_chain_heap 1 [1, 0]"
    by (rule parent_chain.chain_step[OF _ _ c0]) (simp_all add: ex_chain_heap_def)
  have c2: "parent_chain ex_chain_heap 2 [2, 1, 0]"
    by (rule parent_chain.chain_step[OF _ _ c1]) (simp_all add: ex_chain_heap_def)
  from backpropagate_path[OF c2, of 1] obtain h' where
    run: "backpropagate ex_chain_heap (Some 2) 1 = Some (Inr h')" and
    len: "length h' = length ex_chain_heap" and
    nth: "\<forall>i<length [2, 1, 0::nat].
              h' ! ([2, 1, 0] ! i) =
                (ex_chain_heap ! ([2, 1, 0] ! i))\<lparr>visits := visits (ex_chain_heap ! ([2, 1, 0] ! i)) + 1,
                   wins := wins (ex_chain_heap ! ([2, 1, 0] ! i)) + (if even i then 1 else 1 - 1)\<rparr>"
    by blast
  from nth have n0: "h' ! 2 = (ex_chain_heap ! 2)\<lparr>visits := visits (ex_chain_heap ! 2) + 1,
        wins := wins (ex_chain_heap ! 2) + 1\<rparr>"
    by (drule_tac x = 0 in spec) simp
  from nth have n1: "h' ! 1 = (ex_chain_heap ! 1)\<lparr>visits := visits (ex_chain_heap ! 1) + 1,
        wins := wins (ex_chain_heap ! 1) + 0\<rparr>"
    by (drule_tac x = 1 in spec) simp
  from nth have n2: "h' ! 0 = (ex_chain_heap ! 0)\<lparr>visits := visits (ex_chain_heap ! 0) + 1,
        wins := wins (ex_chain_heap ! 0) + 1\<rparr>"
    by (drule_tac x = 2 in spec) simp
  from c2 run len n0 n1 n2 show ?thesis
    by (simp add: ex_chain_heap_def)
qed

subsection \<open>References\<close>

lemma derefs_ok: "\<forall>c\<in>set cs. c < length h \<Longrightarrow> derefs h cs = Inr (map ((!) h) cs)"
  by (induction cs) (simp_all add: deref_def)

lemma derefs_Inr:
  "derefs h cs = Inr nds \<Longrightarrow> nds = map ((!) h) cs \<and> (\<forall>c\<in>set cs. c < length h)"
  by (induction cs arbitrary: nds) (auto simp: deref_def split: if_splits sum.splits)

subsection \<open>Full expansion\<close>

text \<open>
  Where the children of a node carry distinct moves, all of them candidates, and the
  candidate list has no repetition, comparing the two lengths is the same as asking that
  every candidate has a child.
\<close>

lemma is_fully_expanded_iff_matching:
  assumes "distinct legal_moves"
    and "distinct (map (\<lambda>child. move (h ! child)) (children nd))"
    and "set (map (\<lambda>child. move (h ! child)) (children nd)) \<subseteq> Some ` set legal_moves"
  shows "is_fully_expanded nd legal_moves \<longleftrightarrow> every_candidate_has_child h nd legal_moves"
proof -
  let ?ms = "map (\<lambda>child. move (h ! child)) (children nd)"
  have c1: "card (set ?ms) = length (children nd)"
    using assms(2) distinct_card by fastforce
  have c2: "card (Some ` set legal_moves) = length legal_moves"
    using assms(1) by (simp add: card_image distinct_card)
  have ev: "every_candidate_has_child h nd legal_moves \<longleftrightarrow> Some ` set legal_moves \<subseteq> set ?ms"
    unfolding every_candidate_has_child_def list_all_iff list_ex_iff subset_iff image_iff set_map
    by (intro iffI; metis)
  show ?thesis
  proof
    assume "is_fully_expanded nd legal_moves"
    then have "card (set ?ms) = card (Some ` set legal_moves)"
      using c1 c2 by (simp add: is_fully_expanded_def)
    with assms(3) have "set ?ms = Some ` set legal_moves"
      by (intro card_subset_eq) auto
    then show "every_candidate_has_child h nd legal_moves" using ev by simp
  next
    assume "every_candidate_has_child h nd legal_moves"
    with ev assms(3) have "set ?ms = Some ` set legal_moves" by blast
    with c1 c2 show "is_fully_expanded nd legal_moves"
      by (simp add: is_fully_expanded_def)
  qed
qed

text \<open>
  C5. \<open>is_fully_expanded\<close> compares the number of children with the number of candidate
  moves and looks at no move. On the root of \<open>ex_reuse_heap\<close>, whose two children carry
  \<open>Move 0 0\<close> and \<open>Move 3 4\<close>, it answers true for the candidates \<open>Move 1 1\<close> and
  \<open>Move 2 2\<close>, none of which has a child, and false for the single candidate
  \<open>Move 3 4\<close>, which has one.
\<close>

theorem is_fully_expanded_length_only:
  "is_fully_expanded (ex_reuse_heap ! 1) [] \<and>
   is_fully_expanded (ex_reuse_heap ! 0) [Move 1 1, Move 2 2] \<and>
   \<not> every_candidate_has_child ex_reuse_heap (ex_reuse_heap ! 0) [Move 1 1, Move 2 2] \<and>
   \<not> is_fully_expanded (ex_reuse_heap ! 0) [Move 3 4] \<and>
   every_candidate_has_child ex_reuse_heap (ex_reuse_heap ! 0) [Move 3 4]"
  by (simp add: is_fully_expanded_def every_candidate_has_child_def ex_reuse_heap_def)

subsection \<open>Adding a child\<close>

lemma add_child_result:
  assumes "node < length h"
  shows "add_child h node mv =
           Inr (h[node := (h ! node)\<lparr>children := children (h ! node) @ [length h]\<rparr>] @
                  [\<lparr>move = Some mv, parent = Some node, children = [], visits = 0, wins = 0\<rparr>],
                length h)"
  using assms by (simp add: add_child_def TreeNode_init_def nth_append list_update_append1)

lemma random_choice_mem: "random_choice r xs = Inr x \<Longrightarrow> x \<in> set xs"
  by (auto simp: random_choice_def split: if_splits)

lemma expand_keeps_distinct:
  assumes ex: "expand self rnd h node k = Inr (h', n', k')"
    and d: "distinct (map (\<lambda>c. move (h ! c)) (children (h ! node)))"
  shows "distinct (map (\<lambda>c. move (h' ! c)) (children (h' ! node)))"
proof -
  from ex obtain legal_moves where lm: "get_legal_moves (board self) = Inr legal_moves"
    by (auto simp: expand_def split: sum.splits)
  from ex lm have nl: "node < length h"
    by (auto simp: expand_def deref_def split: sum.splits if_splits)
  from ex lm nl obtain cs where cs: "derefs h (children (h ! node)) = Inr cs"
    by (auto simp: expand_def deref_def split: sum.splits)
  from derefs_Inr[OF cs] have cs_eq: "cs = map ((!) h) (children (h ! node))"
    and inb: "\<forall>c\<in>set (children (h ! node)). c < length h" by simp_all
  let ?unv = "filter (\<lambda>mv. Some mv \<notin> set (map move cs)) legal_moves"
  show ?thesis
  proof (cases "0 < length ?unv")
    case False
    with ex lm nl cs have "h' = h" by (simp add: expand_def deref_def Let_def)
    with d show ?thesis by simp
  next
    case True
    with ex lm nl cs obtain new_move where
      rc: "random_choice (rnd k) ?unv = Inr new_move" and
      ac: "add_child h node new_move = Inr (h', n')"
      by (auto simp: expand_def deref_def Let_def split: sum.splits)
    from random_choice_mem[OF rc] have fresh: "Some new_move \<notin> set (map move cs)" by simp
    from ac add_child_result[OF nl, of new_move] have h': "h' =
        h[node := (h ! node)\<lparr>children := children (h ! node) @ [length h]\<rparr>] @
          [\<lparr>move = Some new_move, parent = Some node, children = [], visits = 0, wins = 0\<rparr>]"
      by auto
    have ch: "children (h' ! node) = children (h ! node) @ [length h]"
      using nl by (simp add: h' nth_append)
    have old: "move (h' ! c) = move (h ! c)" if "c < length h" for c
      using that nl by (cases "c = node") (simp_all add: h' nth_append)
    have new: "move (h' ! length h) = Some new_move" by (simp add: h' nth_append)
    have meq: "map (\<lambda>c. move (h' ! c)) (children (h ! node)) =
               map (\<lambda>c. move (h ! c)) (children (h ! node))"
      using inb old by simp
    have nf: "Some new_move \<notin> set (map (\<lambda>c. move (h ! c)) (children (h ! node)))"
      using fresh by (simp add: cs_eq comp_def)
    have "distinct (map (\<lambda>c. move (h' ! c)) (children (h ! node)) @ [Some new_move])"
      unfolding meq using d nf by simp
    then show ?thesis by (simp add: ch new)
  qed
qed

text \<open>
  C6, as the code has it. \<open>add_child\<close> never fails on a live node: it appends a new
  child carrying the move, with no visits and no wins, whether or not a sibling carries the
  same move. Siblings with equal moves are avoided by the caller: a call of \<open>_expand\<close> on
  a node whose children carry distinct moves leaves them distinct, because it only adds a
  move that no child carries.
\<close>

theorem add_child_appends:
  assumes "node < length h"
  shows "add_child h node mv =
           Inr (h[node := (h ! node)\<lparr>children := children (h ! node) @ [length h]\<rparr>] @
                  [\<lparr>move = Some mv, parent = Some node, children = [], visits = 0, wins = 0\<rparr>],
                length h) \<and>
         (\<forall>self rnd k h' n' k'.
            expand self rnd h node k = Inr (h', n', k') \<and>
            distinct (map (\<lambda>c. move (h ! c)) (children (h ! node))) \<longrightarrow>
            distinct (map (\<lambda>c. move (h' ! c)) (children (h' ! node))))"
  using add_child_result[OF assms] expand_keeps_distinct by blast

lemma legal2: "get_legal_moves (empty_board 2) = Inr [Move 0 0, Move 0 1, Move 1 0, Move 1 1]"
  by (simp add: get_legal_moves_def empty_board_def upt_rec)

theorem add_child_appends_witness:
  "0 < length ex_reuse_heap \<and>
   add_child ex_reuse_heap 0 (Move 5 5) =
     Inr (ex_reuse_heap[0 := (ex_reuse_heap ! 0)\<lparr>children := [1, 2, 3]\<rparr>] @
            [\<lparr>move = Some (Move 5 5), parent = Some 0, children = [], visits = 0, wins = 0\<rparr>], 3) \<and>
   (\<exists>h'. expand ex_mcts (\<lambda>_. 0) ex_reuse_heap 0 0 = Inr (h', 3, 1) \<and>
      distinct (map (\<lambda>c. move (ex_reuse_heap ! c)) (children (ex_reuse_heap ! 0))) \<and>
      distinct (map (\<lambda>c. move (h' ! c)) (children (h' ! 0))))"
proof -
  have a: "0 < length ex_reuse_heap" by (simp add: ex_reuse_heap_def)
  note t = add_child_appends[OF a]
  have d: "distinct (map (\<lambda>c. move (ex_reuse_heap ! c)) (children (ex_reuse_heap ! 0)))"
    by (simp add: ex_reuse_heap_def)
  have e: "\<exists>h'. expand ex_mcts (\<lambda>_. 0) ex_reuse_heap 0 0 = Inr (h', 3, 1)"
    by (simp add: expand_def ex_mcts_def legal2 deref_def ex_reuse_heap_def random_choice_def
        add_child_def TreeNode_init_def)
  then obtain h' where h': "expand ex_mcts (\<lambda>_. 0) ex_reuse_heap 0 0 = Inr (h', 3, 1)" by blast
  with d t[of "Move 5 5"] have "distinct (map (\<lambda>c. move (h' ! c)) (children (h' ! 0)))"
    by blast
  moreover from t[of "Move 5 5"] have "add_child ex_reuse_heap 0 (Move 5 5) =
     Inr (ex_reuse_heap[0 := (ex_reuse_heap ! 0)\<lparr>children := [1, 2, 3]\<rparr>] @
            [\<lparr>move = Some (Move 5 5), parent = Some 0, children = [], visits = 0, wins = 0\<rparr>], 3)"
    by (simp add: ex_reuse_heap_def)
  ultimately show ?thesis using a d h' by blast
qed

text \<open>
  C6, as the spec states it, fails: on the root of \<open>ex_reuse_heap\<close>, which has a child
  for \<open>Move 3 4\<close>, adding \<open>Move 3 4\<close> again succeeds and leaves two siblings with that
  move.
\<close>

theorem add_child_duplicate_counterexample:
  "\<exists>h'. add_child ex_reuse_heap 0 (Move 3 4) = Inr (h', 3) \<and>
        map (\<lambda>c. move (h' ! c)) (children (h' ! 0)) =
          [Some (Move 0 0), Some (Move 3 4), Some (Move 3 4)]"
  by (simp add: add_child_def TreeNode_init_def ex_reuse_heap_def)

subsection \<open>Tree reuse\<close>

text \<open>
  C7. On a live node whose children are live, \<open>update_tree\<close> returns a reference to an
  existing child carrying the opponent's move whenever there is one, in the unchanged arena
  (the same object, with its statistics as they were); when no child carries the move it
  returns a new object, at a reference that was not in use, with that move, no visits and no
  wins, the arena being otherwise unchanged.
\<close>

theorem update_tree_reuse:
  assumes "tr < length h" and "\<forall>c\<in>set (children (h ! tr)). c < length h"
  shows "((\<exists>c\<in>set (children (h ! tr)). move (h ! c) = Some mv) \<longrightarrow>
            (\<exists>c. update_tree h tr mv = Inr (h, c) \<and> c \<in> set (children (h ! tr)) \<and>
                 move (h ! c) = Some mv)) \<and>
         (\<not> (\<exists>c\<in>set (children (h ! tr)). move (h ! c) = Some mv) \<longrightarrow>
            update_tree h tr mv =
              Inr (h @ [\<lparr>move = Some mv, parent = Some tr, children = [], visits = 0, wins = 0\<rparr>],
                   length h))"
proof -
  have d: "derefs h (children (h ! tr)) = Inr (map ((!) h) (children (h ! tr)))"
    using assms(2) by (rule derefs_ok)
  show ?thesis
  proof (cases "find (\<lambda>child. move (h ! child) = Some mv) (children (h ! tr))")
    case None
    then have "\<not> (\<exists>c\<in>set (children (h ! tr)). move (h ! c) = Some mv)"
      by (simp add: find_None_iff)
    with None d assms(1) show ?thesis
      by (simp add: update_tree_def deref_def TreeNode_init_def)
  next
    case (Some c)
    then have "c \<in> set (children (h ! tr))" "move (h ! c) = Some mv"
      by (auto simp: find_Some_iff)
    with Some d assms(1) show ?thesis
      by (auto simp: update_tree_def deref_def)
  qed
qed

theorem update_tree_reuse_witness:
  "(0 < length ex_reuse_heap \<and> list_all (\<lambda>c. c < length ex_reuse_heap) (children (ex_reuse_heap ! 0))) \<and>
   update_tree ex_reuse_heap 0 (Move 3 4) = Inr (ex_reuse_heap, 2) \<and>
   visits (ex_reuse_heap ! 2) = 5 \<and> wins (ex_reuse_heap ! 2) = 2 \<and>
   update_tree ex_reuse_heap 0 (Move 9 9) =
     Inr (ex_reuse_heap @ [\<lparr>move = Some (Move 9 9), parent = Some 0, children = [], visits = 0, wins = 0\<rparr>], 3)"
proof -
  have a: "0 < length ex_reuse_heap" by (simp add: ex_reuse_heap_def)
  have b: "\<forall>c\<in>set (children (ex_reuse_heap ! 0)). c < length ex_reuse_heap"
    by (simp add: ex_reuse_heap_def)
  have m: "\<exists>c\<in>set (children (ex_reuse_heap ! 0)). move (ex_reuse_heap ! c) = Some (Move 3 4)"
    by (simp add: ex_reuse_heap_def)
  have n: "\<not> (\<exists>c\<in>set (children (ex_reuse_heap ! 0)). move (ex_reuse_heap ! c) = Some (Move 9 9))"
    by (simp add: ex_reuse_heap_def)
  from update_tree_reuse[OF a b, of "Move 3 4"] m obtain c where
    c: "update_tree ex_reuse_heap 0 (Move 3 4) = Inr (ex_reuse_heap, c)"
       "c \<in> set (children (ex_reuse_heap ! 0))" "move (ex_reuse_heap ! c) = Some (Move 3 4)"
    by blast
  from c(2,3) have "c = 2" by (auto simp: ex_reuse_heap_def)
  with c(1) have r1: "update_tree ex_reuse_heap 0 (Move 3 4) = Inr (ex_reuse_heap, 2)" by simp
  from update_tree_reuse[OF a b, of "Move 9 9"] n have
    r2: "update_tree ex_reuse_heap 0 (Move 9 9) =
     Inr (ex_reuse_heap @ [\<lparr>move = Some (Move 9 9), parent = Some 0, children = [], visits = 0, wins = 0\<rparr>], length ex_reuse_heap)"
    by blast
  have l: "length ex_reuse_heap = 3" by (simp add: ex_reuse_heap_def)
  have s: "visits (ex_reuse_heap ! 2) = 5 \<and> wins (ex_reuse_heap ! 2) = 2" by (simp add: ex_reuse_heap_def)
  from a b r1 r2 l s show ?thesis by (simp add: list_all_iff)
qed

subsection \<open>The default rollout policy\<close>

lemma tile_at_ok:
  assumes "board_ok b" "is_within_bounds b x y"
  shows "tile_at b x y = Inr (tiles b ! nat x ! nat y)"
proof -
  from assms have x: "0 \<le> x" "x < int (length (tiles b))"
    by (simp_all add: board_ok_def is_within_bounds_def)
  then have "tiles b ! nat x \<in> set (tiles b)" by simp
  with assms have "int (length (tiles b ! nat x)) = bsize b"
    by (simp add: board_ok_def list_all_iff)
  with assms x show ?thesis
    by (simp add: tile_at_def py_nth_def is_within_bounds_def)
qed

lemma get_neighbours_from_ok:
  assumes "board_ok b"
  shows "\<exists>ts. get_neighbours_from b x y offs = Inr ts \<and>
              (\<forall>t\<in>set ts. \<exists>i j. is_within_bounds b i j \<and> t = tiles b ! nat i ! nat j)"
proof (induction offs)
  case Nil
  show ?case by simp
next
  case (Cons o1 offs)
  obtain xo yo where o1: "o1 = (xo, yo)" by (cases o1)
  from Cons obtain ts where ts: "get_neighbours_from b x y offs = Inr ts"
    "\<forall>t\<in>set ts. \<exists>i j. is_within_bounds b i j \<and> t = tiles b ! nat i ! nat j" by blast
  show ?case
  proof (cases "is_within_bounds b (x + xo) (y + yo)")
    case True
    with tile_at_ok[OF assms True] ts show ?thesis
      by (auto simp: o1 Let_def)
  next
    case False
    with ts show ?thesis by (simp add: o1 Let_def)
  qed
qed

lemma get_neighbours_ok:
  assumes "board_ok b"
  shows "\<exists>ts. get_neighbours b x y = Inr ts \<and>
              (\<forall>t\<in>set ts. \<exists>i j. is_within_bounds b i j \<and> t = tiles b ! nat i ! nat j)"
  unfolding get_neighbours_def using assms by (rule get_neighbours_from_ok)

lemma savebridge_bridges_ok:
  assumes "board_ok b"
  shows "\<exists>ms. savebridge_bridges b col legal = Inr ms \<and> set ms \<subseteq> set legal"
proof (induction legal)
  case Nil
  show ?case by simp
next
  case (Cons mv legal)
  from get_neighbours_ok[OF assms] obtain ts where
    "get_neighbours b (move_x mv) (move_y mv) = Inr ts" by blast
  with Cons show ?case by auto
qed

lemma savebridge_wheels_ok:
  assumes "board_ok b"
  shows "\<exists>ms. savebridge_wheels b col legal = Inr ms \<and> set ms \<subseteq> set legal"
proof (induction legal)
  case Nil
  show ?case by simp
next
  case (Cons mv legal)
  from get_neighbours_ok[OF assms] obtain ts where
    "get_neighbours b (move_x mv) (move_y mv) = Inr ts" by blast
  with Cons show ?case by (auto simp: completes_wheel_def)
qed

lemma savebridge_ok:
  assumes "board_ok b"
  shows "\<exists>sb. savebridge b col legal = Inr sb \<and> set sb \<subseteq> set legal"
proof -
  from savebridge_bridges_ok[OF assms] obtain bs where
    bs: "savebridge_bridges b col legal = Inr bs" "set bs \<subseteq> set legal" by blast
  from savebridge_wheels_ok[OF assms] obtain ws where
    ws: "savebridge_wheels b col legal = Inr ws" "set ws \<subseteq> set legal" by blast
  from bs ws show ?thesis by (simp add: savebridge_def)
qed

lemma random_choice_in: "xs \<noteq> [] \<Longrightarrow> \<exists>x. random_choice r xs = Inr x \<and> x \<in> set xs"
  by (simp add: random_choice_def)

lemma random_choice_onto: "x \<in> set xs \<Longrightarrow> \<exists>r. random_choice r xs = Inr x"
proof -
  assume "x \<in> set xs"
  then obtain i where i: "i < length xs" "xs ! i = x" by (auto simp: in_set_conv_nth)
  then have "random_choice i xs = Inr x" by (auto simp: random_choice_def)
  then show ?thesis ..
qed

lemma default_policy_from:
  assumes "savebridge b col legal = Inr sb" "legal \<noteq> []"
  shows "\<exists>mv. default_policy b col legal r = Inr mv \<and>
              (if sb \<noteq> [] then mv \<in> set sb else mv \<in> set legal)"
proof (cases "sb = []")
  case True
  with assms random_choice_in[OF assms(2), of r] show ?thesis
    by (simp add: default_policy_def)
next
  case False
  with assms random_choice_in[OF False, of r] show ?thesis
    by (simp add: default_policy_def)
qed

lemma default_policy_onto:
  assumes "savebridge b col legal = Inr sb" "mv \<in> set (if sb \<noteq> [] then sb else legal)"
  shows "\<exists>r. default_policy b col legal r = Inr mv"
proof -
  from random_choice_onto[OF assms(2)] obtain r where
    "random_choice r (if sb \<noteq> [] then sb else legal) = Inr mv" by blast
  with assms(1) have "default_policy b col legal r = Inr mv"
    by (auto simp: default_policy_def split: if_splits)
  then show ?thesis ..
qed

lemma empty_board_ok: "board_ok (empty_board n)"
  by (simp add: board_ok_def empty_board_def list_all_iff)

lemma empty_board_tile:
  assumes "is_within_bounds (empty_board n) i j"
  shows "colour (tiles (empty_board n) ! nat i ! nat j) = None"
proof -
  from assms have "nat i < n" "nat j < n"
    by (auto simp: is_within_bounds_def empty_board_def)
  then show ?thesis by (simp add: empty_board_def)
qed

lemma empty_board_neighbours:
  "\<exists>ts. get_neighbours (empty_board n) x y = Inr ts \<and> (\<forall>t\<in>set ts. colour t = None)"
proof -
  from get_neighbours_ok[OF empty_board_ok, of n x y] obtain ts where
    ts: "get_neighbours (empty_board n) x y = Inr ts"
    "\<forall>t\<in>set ts. \<exists>i j. is_within_bounds (empty_board n) i j \<and>
        t = tiles (empty_board n) ! nat i ! nat j" by blast
  from ts(2) have "\<forall>t\<in>set ts. colour t = None"
    by (metis empty_board_tile)
  with ts(1) show ?thesis by blast
qed

lemma combinations2_mem: "(a, b) \<in> set (combinations2 xs) \<Longrightarrow> a \<in> set xs \<and> b \<in> set xs"
  by (induction xs) auto

lemma no_pair_of_colour:
  assumes "\<forall>t\<in>set ts. colour t = None"
  shows "filter (\<lambda>(n1, n2). colour n1 = Some col \<and> colour n2 = Some col \<and> is_bridge n1 n2 mv)
           (combinations2 ts) = []"
proof -
  have "\<not> (colour n1 = Some col \<and> colour n2 = Some col \<and> is_bridge n1 n2 mv)"
    if "(n1, n2) \<in> set (combinations2 ts)" for n1 n2
    using combinations2_mem[OF that] assms by simp
  then show ?thesis by (auto simp: filter_empty_conv)
qed

lemma savebridge_bridges_empty: "savebridge_bridges (empty_board n) col legal = Inr []"
proof (induction legal)
  case Nil
  show ?case by simp
next
  case (Cons mv legal)
  from empty_board_neighbours obtain ts where
    ts: "get_neighbours (empty_board n) (move_x mv) (move_y mv) = Inr ts"
    "\<forall>t\<in>set ts. colour t = None" by blast
  from no_pair_of_colour[OF ts(2)] ts(1) Cons show ?case by simp
qed

lemma savebridge_wheels_empty: "savebridge_wheels (empty_board n) col legal = Inr []"
proof (induction legal)
  case Nil
  show ?case by simp
next
  case (Cons mv legal)
  from empty_board_neighbours obtain ts where
    ts: "get_neighbours (empty_board n) (move_x mv) (move_y mv) = Inr ts"
    "\<forall>t\<in>set ts. colour t = None" by blast
  from ts(2) have "filter (\<lambda>neighbour. colour neighbour = Some col) ts = []"
    by (simp add: filter_empty_conv)
  with ts(1) Cons show ?case by (simp add: completes_wheel_def)
qed

lemma savebridge_empty_board: "savebridge (empty_board n) col legal = Inr []"
  by (simp add: savebridge_def savebridge_bridges_empty savebridge_wheels_empty)

lemma length_all_cells: "length (all_cells n) = n * n"
  by (simp add: all_cells_def length_concat comp_def sum_list_triv)

lemma get_legal_moves_empty_board:
  assumes "0 < n"
  shows "get_legal_moves (empty_board n) = Inr (all_cells n)"
proof -
  let ?ts = "concat (tiles (empty_board n))"
  have f: "filter (\<lambda>tile. colour tile \<noteq> Some RED \<and> colour tile \<noteq> Some BLUE) ?ts = ?ts"
    by (auto simp: filter_id_conv empty_board_def)
  have m: "map (\<lambda>tile. Move (tile_x tile) (tile_y tile)) ?ts = all_cells n"
    by (simp add: empty_board_def all_cells_def map_concat comp_def)
  have "length ?ts = n * n"
    using m length_all_cells by (metis length_map)
  with assms have "length ?ts \<noteq> 0" by simp
  with f m show ?thesis by (simp add: get_legal_moves_def Let_def)
qed

lemma ex_bridge_legal_moves: "get_legal_moves ex_bridge_board = Inr ex_bridge_legal"
  by code_simp

lemma ex_bridge_savebridge: "savebridge ex_bridge_board RED ex_bridge_legal = Inr [Move 1 1]"
  by code_simp

text \<open>The neighbours of a cell: the tiles at the offsets that stay on the board.\<close>

lemma get_neighbours_from_eq:
  assumes "board_ok b"
  shows "get_neighbours_from b x y offs =
           Inr (map (\<lambda>(dx, dy). tiles b ! nat (x + dx) ! nat (y + dy))
                  (filter (\<lambda>(dx, dy). is_within_bounds b (x + dx) (y + dy)) offs))"
proof (induction offs)
  case Nil
  show ?case by simp
next
  case (Cons o1 offs)
  obtain xo yo where o1: "o1 = (xo, yo)" by (cases o1)
  show ?case
  proof (cases "is_within_bounds b (x + xo) (y + yo)")
    case True
    with tile_at_ok[OF assms True] Cons show ?thesis
      by (simp add: o1 Let_def)
  next
    case False
    with Cons show ?thesis by (simp add: o1 Let_def)
  qed
qed

lemma combinations2_map: "combinations2 (map f xs) = map (map_prod f f) (combinations2 xs)"
  by (induction xs) (simp_all add: comp_def)

lemma combinations2_filter:
  "combinations2 (filter P xs) = filter (\<lambda>(a, b). P a \<and> P b) (combinations2 xs)"
  by (induction xs) (simp_all add: filter_map comp_def)

lemma tiles_placed_nth:
  assumes "tiles_placed b" "i < length (tiles b)" "j < length (tiles b ! i)"
  shows "tile_x (tiles b ! i ! j) = int i \<and> tile_y (tiles b ! i ! j) = int j"
proof -
  from assms(1,2) have
    "list_all (\<lambda>(j, tile). tile_x tile = int i \<and> tile_y tile = int j) (enumerate 0 (tiles b ! i))"
    by (auto simp: tiles_placed_def list_all_length nth_enumerate_eq)
  with assms(3) show ?thesis
    by (auto simp: list_all_length nth_enumerate_eq)
qed

lemma tile_coordinates:
  assumes "board_ok b" "tiles_placed b" "is_within_bounds b i j"
  shows "tile_x (tiles b ! nat i ! nat j) = i \<and> tile_y (tiles b ! nat i ! nat j) = j"
proof -
  from assms(1,3) have x: "0 \<le> i" "nat i < length (tiles b)" and y: "0 \<le> j"
    by (auto simp: board_ok_def is_within_bounds_def)
  then have "tiles b ! nat i \<in> set (tiles b)" by simp
  with assms(1) have "int (length (tiles b ! nat i)) = bsize b"
    by (simp add: board_ok_def list_all_iff)
  with assms(3) have "nat j < length (tiles b ! nat i)"
    by (auto simp: is_within_bounds_def)
  from tiles_placed_nth[OF assms(2) x(2) this] x(1) y show ?thesis by simp
qed

text \<open>
  Of the pairs of offsets that \<open>itertools.combinations\<close> yields, one passes the bridge
  test: the offsets \<open>(-1, -1)\<close> and \<open>(1, 1)\<close>.
\<close>

lemma bridge_offsets:
  assumes "(a, c) \<in> set (combinations2 RELATIVE_NEIGHBOURS)"
  shows "(\<bar>fst a - fst c\<bar> = 2 \<and> \<bar>snd a - snd c\<bar> = 2) = (a = (-1, -1) \<and> c = (1, 1))"
  using assms by (auto simp: RELATIVE_NEIGHBOURS_def)

lemma bridge_pair_test:
  assumes ok: "board_ok b" and tp: "tiles_placed b"
    and pr: "(a, c) \<in> set (combinations2 RELATIVE_NEIGHBOURS)"
  shows "(is_within_bounds b (move_x mv + fst a) (move_y mv + snd a) \<and>
          is_within_bounds b (move_x mv + fst c) (move_y mv + snd c) \<and>
          colour (tiles b ! nat (move_x mv + fst a) ! nat (move_y mv + snd a)) = Some col \<and>
          colour (tiles b ! nat (move_x mv + fst c) ! nat (move_y mv + snd c)) = Some col \<and>
          is_bridge (tiles b ! nat (move_x mv + fst a) ! nat (move_y mv + snd a))
                    (tiles b ! nat (move_x mv + fst c) ! nat (move_y mv + snd c)) mv) =
         (a = (-1, -1) \<and> c = (1, 1) \<and> bridge_securing b col mv)"
proof (cases "is_within_bounds b (move_x mv + fst a) (move_y mv + snd a) \<and>
              is_within_bounds b (move_x mv + fst c) (move_y mv + snd c)")
  case False
  then show ?thesis
    by (auto simp: bridge_securing_def coloured_at_def is_within_bounds_def)
next
  case True
  note ta = tile_coordinates[OF ok tp conjunct1[OF True]]
  note tc = tile_coordinates[OF ok tp conjunct2[OF True]]
  have br: "is_bridge (tiles b ! nat (move_x mv + fst a) ! nat (move_y mv + snd a))
                    (tiles b ! nat (move_x mv + fst c) ! nat (move_y mv + snd c)) mv =
            (\<bar>fst a - fst c\<bar> = 2 \<and> \<bar>snd a - snd c\<bar> = 2 \<and>
             (move_x mv, move_y mv) =
               ((move_x mv + fst a + (move_x mv + fst c)) div 2,
                (move_y mv + snd a + (move_y mv + snd c)) div 2))"
    by (simp add: is_bridge_def ta tc)
  show ?thesis
  proof (cases "a = (-1, -1) \<and> c = (1, 1)")
    case ac: True
    with True br show ?thesis
      by (simp add: bridge_securing_def coloured_at_def is_within_bounds_def)
  next
    case ac: False
    with bridge_offsets[OF pr] have "\<not> (\<bar>fst a - fst c\<bar> = 2 \<and> \<bar>snd a - snd c\<bar> = 2)"
      by simp
    with br have "\<not> is_bridge (tiles b ! nat (move_x mv + fst a) ! nat (move_y mv + snd a))
                    (tiles b ! nat (move_x mv + fst c) ! nat (move_y mv + snd c)) mv"
      by blast
    with ac show ?thesis by blast
  qed
qed

lemma bridge_pairs:
  assumes ok: "board_ok b" and tp: "tiles_placed b"
    and nb: "get_neighbours b (move_x mv) (move_y mv) = Inr neighbors"
  shows "map (\<lambda>_. mv)
           (filter (\<lambda>(n1, n2). colour n1 = Some col \<and> colour n2 = Some col \<and> is_bridge n1 n2 mv)
              (combinations2 neighbors)) =
         (if bridge_securing b col mv then [mv] else [])"
proof -
  let ?T = "\<lambda>(dx, dy). tiles b ! nat (move_x mv + dx) ! nat (move_y mv + dy)"
  let ?P = "\<lambda>(dx, dy). is_within_bounds b (move_x mv + dx) (move_y mv + dy)"
  let ?Q = "\<lambda>(n1, n2). colour n1 = Some col \<and> colour n2 = Some col \<and> is_bridge n1 n2 mv"
  let ?R = "\<lambda>(a, c). a = (-1, -1) \<and> c = (1, 1) \<and> bridge_securing b col mv"
  from nb get_neighbours_from_eq[OF ok, of "move_x mv" "move_y mv" RELATIVE_NEIGHBOURS]
  have n: "neighbors = map ?T (filter ?P RELATIVE_NEIGHBOURS)"
    by (simp add: get_neighbours_def)
  have "filter ?Q (combinations2 neighbors) =
        map (map_prod ?T ?T)
          (filter (?Q \<circ> map_prod ?T ?T)
             (filter (\<lambda>(a, c). ?P a \<and> ?P c) (combinations2 RELATIVE_NEIGHBOURS)))"
    by (simp only: n combinations2_map combinations2_filter filter_map)
  also have "filter (?Q \<circ> map_prod ?T ?T)
               (filter (\<lambda>(a, c). ?P a \<and> ?P c) (combinations2 RELATIVE_NEIGHBOURS)) =
             filter (\<lambda>p. (case p of (a, c) \<Rightarrow> ?P a \<and> ?P c) \<and> (?Q \<circ> map_prod ?T ?T) p)
               (combinations2 RELATIVE_NEIGHBOURS)"
    by (simp only: filter_filter)
  also have "\<dots> = filter ?R (combinations2 RELATIVE_NEIGHBOURS)"
  proof (rule filter_cong[OF refl])
    fix p assume p: "p \<in> set (combinations2 RELATIVE_NEIGHBOURS)"
    obtain a c where ac: "p = (a, c)" by (cases p)
    from bridge_pair_test[OF ok tp p[unfolded ac], of mv col]
    show "((case p of (a, c) \<Rightarrow> ?P a \<and> ?P c) \<and> (?Q \<circ> map_prod ?T ?T) p) = ?R p"
      by (simp add: ac split_beta)
  qed
  also have "filter ?R (combinations2 RELATIVE_NEIGHBOURS) =
             (if bridge_securing b col mv then [((-1, -1), (1, 1))] else [])"
    by (simp add: RELATIVE_NEIGHBOURS_def)
  finally show ?thesis by simp
qed

lemma savebridge_bridges_eq:
  assumes "board_ok b" "tiles_placed b"
  shows "savebridge_bridges b col legal = Inr (filter (bridge_securing b col) legal)"
proof (induction legal)
  case Nil
  show ?case by simp
next
  case (Cons mv legal)
  from get_neighbours_ok[OF assms(1)] obtain ts where
    ts: "get_neighbours b (move_x mv) (move_y mv) = Inr ts" by blast
  from bridge_pairs[OF assms ts, of col] ts Cons show ?case by simp
qed

lemma completes_wheel_eq:
  assumes "board_ok b"
  shows "completes_wheel b (move_x mv) (move_y mv) col = Inr (wheel_completing b col mv)"
proof -
  let ?T = "\<lambda>(dx, dy). tiles b ! nat (move_x mv + dx) ! nat (move_y mv + dy)"
  let ?P = "\<lambda>(dx, dy). is_within_bounds b (move_x mv + dx) (move_y mv + dy)"
  have "length (filter (\<lambda>neighbour. colour neighbour = Some col)
                  (map ?T (filter ?P RELATIVE_NEIGHBOURS))) =
        length (filter (\<lambda>(dx, dy). coloured_at b col (move_x mv + dx) (move_y mv + dy))
                  RELATIVE_NEIGHBOURS)"
    unfolding filter_map length_map filter_filter
    by (rule arg_cong[where f = length], rule filter_cong[OF refl])
       (auto simp: coloured_at_def is_within_bounds_def)
  with get_neighbours_from_eq[OF assms, of "move_x mv" "move_y mv" RELATIVE_NEIGHBOURS]
  show ?thesis
    by (simp add: completes_wheel_def get_neighbours_def wheel_completing_def
                  RELATIVE_NEIGHBOURS_def)
qed

lemma savebridge_wheels_eq:
  assumes "board_ok b"
  shows "savebridge_wheels b col legal = Inr (filter (wheel_completing b col) legal)"
proof (induction legal)
  case Nil
  show ?case by simp
next
  case (Cons mv legal)
  with completes_wheel_eq[OF assms, of mv col] show ?case by simp
qed

lemma savebridge_eq:
  assumes "board_ok b" "tiles_placed b"
  shows "savebridge b col legal =
           Inr (filter (bridge_securing b col) legal @ filter (wheel_completing b col) legal)"
  by (simp add: savebridge_def savebridge_bridges_eq[OF assms] savebridge_wheels_eq[OF assms(1)])

lemma ex_wheel_legal_moves: "get_legal_moves ex_wheel_board = Inr ex_wheel_legal"
  by code_simp

lemma ex_wheel_savebridge: "savebridge ex_wheel_board RED ex_wheel_legal = Inr [Move 1 1]"
  by code_simp

lemma ex_templates:
  "filter (bridge_securing ex_bridge_board RED) ex_bridge_legal = [Move 1 1] \<and>
   filter (wheel_completing ex_bridge_board RED) ex_bridge_legal = [] \<and>
   filter (bridge_securing ex_wheel_board RED) ex_wheel_legal = [] \<and>
   filter (wheel_completing ex_wheel_board RED) ex_wheel_legal = [Move 1 1]"
  by code_simp

lemma ex_boards_placed:
  "board_ok ex_bridge_board \<and> tiles_placed ex_bridge_board \<and>
   board_ok ex_wheel_board \<and> tiles_placed ex_wheel_board"
  by code_simp

text \<open>
  C8. On a board of \<open>size\<close> rows of \<open>size\<close> tiles, for every colour and every non-empty
  list of legal moves, \<open>savebridge\<close> returns a list \<open>sb\<close> of legal moves, and for every draw
  of the random generator the default policy returns a move of \<open>sb\<close> when \<open>sb\<close> is not empty
  and a move of the legal-move list otherwise; every move of the list drawn from is
  returned for some draw. Where the tiles carry their own coordinates, \<open>sb\<close> is the
  bridge-securing legal moves followed by the wheel-completing legal moves, each in the
  order of the legal-move list, so that its moves are the legal moves that secure a bridge
  or complete a wheel, and no others. On the empty 11 by 11 board \<open>savebridge\<close> returns the
  empty list for every colour and every move list, the legal moves are the 121 cells, and
  the policy draws from all of them.
\<close>

theorem default_policy_draw:
  assumes "board_ok b" and "legal_moves \<noteq> []"
  shows "(\<exists>sb. savebridge b col legal_moves = Inr sb \<and> set sb \<subseteq> set legal_moves \<and>
            (tiles_placed b \<longrightarrow>
               sb = filter (bridge_securing b col) legal_moves @
                    filter (wheel_completing b col) legal_moves \<and>
               set sb = {mv \<in> set legal_moves.
                           bridge_securing b col mv \<or> wheel_completing b col mv}) \<and>
            (\<forall>r. \<exists>mv. default_policy b col legal_moves r = Inr mv \<and>
                   (if sb \<noteq> [] then mv \<in> set sb else mv \<in> set legal_moves)) \<and>
            (\<forall>mv\<in>set (if sb \<noteq> [] then sb else legal_moves).
                \<exists>r. default_policy b col legal_moves r = Inr mv)) \<and>
         board_ok (empty_board 11) \<and>
         (\<forall>moves. savebridge (empty_board 11) col moves = Inr []) \<and>
         get_legal_moves (empty_board 11) = Inr (all_cells 11) \<and>
         length (all_cells 11) = 121 \<and>
         (\<forall>r. \<exists>mv. default_policy (empty_board 11) col (all_cells 11) r = Inr mv \<and>
                mv \<in> set (all_cells 11)) \<and>
         (\<forall>mv\<in>set (all_cells 11). \<exists>r. default_policy (empty_board 11) col (all_cells 11) r = Inr mv)"
proof -
  from savebridge_ok[OF assms(1)] obtain sb where
    sb: "savebridge b col legal_moves = Inr sb" "set sb \<subseteq> set legal_moves" by blast
  have tm: "sb = filter (bridge_securing b col) legal_moves @
                 filter (wheel_completing b col) legal_moves \<and>
            set sb = {mv \<in> set legal_moves.
                        bridge_securing b col mv \<or> wheel_completing b col mv}"
    if tp: "tiles_placed b"
  proof -
    from savebridge_eq[OF assms(1) tp, of col legal_moves] sb(1)
    have e: "sb = filter (bridge_securing b col) legal_moves @
                  filter (wheel_completing b col) legal_moves" by simp
    have "set (filter (bridge_securing b col) legal_moves @
               filter (wheel_completing b col) legal_moves) =
          {mv \<in> set legal_moves. bridge_securing b col mv \<or> wheel_completing b col mv}"
      by auto
    with e show ?thesis by simp
  qed
  have general: "\<exists>sb. savebridge b col legal_moves = Inr sb \<and> set sb \<subseteq> set legal_moves \<and>
            (tiles_placed b \<longrightarrow>
               sb = filter (bridge_securing b col) legal_moves @
                    filter (wheel_completing b col) legal_moves \<and>
               set sb = {mv \<in> set legal_moves.
                           bridge_securing b col mv \<or> wheel_completing b col mv}) \<and>
            (\<forall>r. \<exists>mv. default_policy b col legal_moves r = Inr mv \<and>
                   (if sb \<noteq> [] then mv \<in> set sb else mv \<in> set legal_moves)) \<and>
            (\<forall>mv\<in>set (if sb \<noteq> [] then sb else legal_moves).
                \<exists>r. default_policy b col legal_moves r = Inr mv)"
    using sb tm default_policy_from[OF sb(1) assms(2)] default_policy_onto[OF sb(1)]
    by (intro exI[of _ sb]) blast
  have ne: "all_cells 11 \<noteq> []"
    using length_all_cells[of 11] by auto
  have e: "savebridge (empty_board 11) col moves = Inr []" for moves
    by (rule savebridge_empty_board)
  have l: "get_legal_moves (empty_board 11) = Inr (all_cells 11)"
    by (rule get_legal_moves_empty_board) simp
  have n: "length (all_cells 11) = 121"
    by (simp add: length_all_cells)
  have d1: "\<exists>mv. default_policy (empty_board 11) col (all_cells 11) r = Inr mv \<and>
                mv \<in> set (all_cells 11)" for r
    using default_policy_from[OF e ne, of r] by simp
  have d2: "\<exists>r. default_policy (empty_board 11) col (all_cells 11) r = Inr mv"
    if "mv \<in> set (all_cells 11)" for mv
    using default_policy_onto[OF e, of mv "all_cells 11"] that by simp
  from general empty_board_ok e l n d1 d2 show ?thesis by blast
qed

theorem default_policy_draw_witness:
  "board_ok ex_bridge_board \<and> tiles_placed ex_bridge_board \<and> ex_bridge_legal \<noteq> [] \<and>
   get_legal_moves ex_bridge_board = Inr ex_bridge_legal \<and>
   bridge_securing ex_bridge_board RED (Move 1 1) \<and>
   \<not> wheel_completing ex_bridge_board RED (Move 1 1) \<and>
   savebridge ex_bridge_board RED ex_bridge_legal = Inr [Move 1 1] \<and>
   default_policy ex_bridge_board RED ex_bridge_legal 5 = Inr (Move 1 1) \<and>
   board_ok ex_wheel_board \<and> tiles_placed ex_wheel_board \<and> ex_wheel_legal \<noteq> [] \<and>
   get_legal_moves ex_wheel_board = Inr ex_wheel_legal \<and>
   wheel_completing ex_wheel_board RED (Move 1 1) \<and>
   \<not> bridge_securing ex_wheel_board RED (Move 1 1) \<and>
   savebridge ex_wheel_board RED ex_wheel_legal = Inr [Move 1 1] \<and>
   default_policy ex_wheel_board RED ex_wheel_legal 5 = Inr (Move 1 1) \<and>
   savebridge (empty_board 11) RED ex_bridge_legal = Inr [] \<and>
   length (all_cells 11) = 121"
proof -
  from ex_boards_placed have ok: "board_ok ex_bridge_board" and tp: "tiles_placed ex_bridge_board"
    and ok': "board_ok ex_wheel_board" and tp': "tiles_placed ex_wheel_board"
    by simp_all
  have ne: "ex_bridge_legal \<noteq> []" by (simp add: ex_bridge_legal_def)
  have ne': "ex_wheel_legal \<noteq> []" by (simp add: ex_wheel_legal_def)
  have m: "bridge_securing ex_bridge_board RED (Move 1 1)"
    "\<not> wheel_completing ex_bridge_board RED (Move 1 1)"
    "wheel_completing ex_wheel_board RED (Move 1 1)"
    "\<not> bridge_securing ex_wheel_board RED (Move 1 1)"
    by code_simp+
  note t = default_policy_draw[OF ok ne, of RED]
  from t tp ex_templates obtain sb where
    s: "savebridge ex_bridge_board RED ex_bridge_legal = Inr sb" "sb = [Move 1 1]"
    and d: "\<forall>r. \<exists>mv. default_policy ex_bridge_board RED ex_bridge_legal r = Inr mv \<and>
                   (if sb \<noteq> [] then mv \<in> set sb else mv \<in> set ex_bridge_legal)"
    by auto
  from d s(2) obtain mv where
    "default_policy ex_bridge_board RED ex_bridge_legal 5 = Inr mv" "mv \<in> set [Move 1 1]"
    by (metis not_Cons_self2)
  then have dp: "default_policy ex_bridge_board RED ex_bridge_legal 5 = Inr (Move 1 1)" by simp
  note t' = default_policy_draw[OF ok' ne', of RED]
  from t' tp' ex_templates obtain sb' where
    s': "savebridge ex_wheel_board RED ex_wheel_legal = Inr sb'" "sb' = [Move 1 1]"
    and d': "\<forall>r. \<exists>mv. default_policy ex_wheel_board RED ex_wheel_legal r = Inr mv \<and>
                   (if sb' \<noteq> [] then mv \<in> set sb' else mv \<in> set ex_wheel_legal)"
    by auto
  from d' s'(2) obtain mv' where
    "default_policy ex_wheel_board RED ex_wheel_legal 5 = Inr mv'" "mv' \<in> set [Move 1 1]"
    by (metis not_Cons_self2)
  then have dp': "default_policy ex_wheel_board RED ex_wheel_legal 5 = Inr (Move 1 1)" by simp
  from t have z: "savebridge (empty_board 11) RED ex_bridge_legal = Inr []"
    "length (all_cells 11) = 121"
    by blast+
  from s have sv: "savebridge ex_bridge_board RED ex_bridge_legal = Inr [Move 1 1]" by simp
  from s' have sv': "savebridge ex_wheel_board RED ex_wheel_legal = Inr [Move 1 1]" by simp
  from ok tp ne ex_bridge_legal_moves m(1,2) sv dp ok' tp' ne' ex_wheel_legal_moves m(3,4) sv' dp' z
  show ?thesis by (intro conjI)
qed

subsection \<open>The choice of the move\<close>

lemma py_max_from_split:
  "\<exists>ys zs. best # xs = ys @ py_max_from key best xs # zs \<and>
           (\<forall>y\<in>set ys. key y < key (py_max_from key best xs)) \<and>
           (\<forall>z\<in>set zs. key z \<le> key (py_max_from key best xs))"
proof (induction xs arbitrary: best)
  case Nil
  show ?case by (intro exI[of _ "[]"]) simp
next
  case (Cons x xs)
  show ?case
  proof (cases "key best < key x")
    case True
    let ?r = "py_max_from key x xs"
    have r: "py_max_from key best (x # xs) = ?r" using True by simp
    from Cons[of x] obtain ys zs where s: "x # xs = ys @ ?r # zs"
      "\<forall>y\<in>set ys. key y < key ?r" "\<forall>z\<in>set zs. key z \<le> key ?r" by blast
    have "key x \<le> key ?r"
    proof (cases ys)
      case Nil
      with s(1) have "x = ?r" by (metis append_Nil list.inject)
      then have "key x = key ?r" by (rule arg_cong)
      then show ?thesis by simp
    next
      case (Cons y ys')
      with s(1,2) have "key x < key ?r" by auto
      then show ?thesis by simp
    qed
    with True have "key best < key ?r" by simp
    with s have "best # x # xs = (best # ys) @ ?r # zs \<and>
        (\<forall>y\<in>set (best # ys). key y < key ?r) \<and> (\<forall>z\<in>set zs. key z \<le> key ?r)"
      by simp
    then show ?thesis unfolding r by blast
  next
    case False
    let ?r = "py_max_from key best xs"
    have r: "py_max_from key best (x # xs) = ?r" using False by simp
    from Cons[of best] obtain ys zs where s: "best # xs = ys @ ?r # zs"
      "\<forall>y\<in>set ys. key y < key ?r" "\<forall>z\<in>set zs. key z \<le> key ?r" by blast
    show ?thesis
    proof (cases ys)
      case Nil
      with s(1) have e: "best = ?r" "zs = xs" by (metis append_Nil list.inject)+
      from e(1) have "key best = key ?r" by (rule arg_cong)
      with False have "key x \<le> key ?r" by (simp add: not_less)
      with s(3) e(2) have "\<forall>z\<in>set (x # xs). key z \<le> key ?r" by simp
      moreover from e(1) have "best # x # xs = [] @ ?r # (x # xs)" by simp
      ultimately have "best # x # xs = [] @ ?r # (x # xs) \<and>
        (\<forall>y\<in>set []. key y < key ?r) \<and> (\<forall>z\<in>set (x # xs). key z \<le> key ?r)"
        by simp
      then show ?thesis unfolding r by blast
    next
      case (Cons y ys')
      with s(1) have y: "y = best" "xs = ys' @ ?r # zs" by (metis append_Cons list.inject)+
      from s(2) Cons y have "key best < key ?r" by simp
      with False have "key x < key ?r" by (simp add: not_less)
      with y s(2,3) Cons have "best # x # xs = (best # x # ys') @ ?r # zs \<and>
        (\<forall>y\<in>set (best # x # ys'). key y < key ?r) \<and> (\<forall>z\<in>set zs. key z \<le> key ?r)"
        by simp
      then show ?thesis unfolding r by blast
    qed
  qed
qed

lemma py_max_first:
  assumes "py_max key xs = Inr r"
  shows "\<exists>ys zs. xs = ys @ r # zs \<and> (\<forall>y\<in>set ys. key y < key r) \<and> (\<forall>z\<in>set zs. key z \<le> key r)"
proof (cases xs)
  case Nil
  with assms show ?thesis by (simp add: py_max_def)
next
  case (Cons x rest)
  with assms have "r = py_max_from key x rest" by (simp add: py_max_def)
  with py_max_from_split[of x rest key] Cons show ?thesis by simp
qed

lemma most_visited_child_first:
  assumes "most_visited_child h root_node = Inr best"
  shows "\<exists>ys zs. children (h ! root_node) = ys @ best # zs \<and>
           (\<forall>y\<in>set ys. visits (h ! y) < visits (h ! best)) \<and>
           (\<forall>z\<in>set zs. visits (h ! z) \<le> visits (h ! best))"
proof -
  from assms have "py_max (\<lambda>child. visits (h ! child)) (children (h ! root_node)) = Inr best"
    by (auto simp: most_visited_child_def deref_def split: if_splits sum.splits)
  from py_max_first[OF this] show ?thesis .
qed

lemma run_returns_most_visited:
  assumes "run ev self h root_node k t = Some (Inr (best, iterations, h', k', t'))"
  shows "\<exists>ys zs. children (h' ! root_node) = ys @ best # zs \<and>
           (\<forall>y\<in>set ys. visits (h' ! y) < visits (h' ! best)) \<and>
           (\<forall>z\<in>set zs. visits (h' ! z) \<le> visits (h' ! best))"
proof -
  from assms have "most_visited_child h' root_node = Inr best"
    by (auto simp: run_def Let_def split: option.splits sum.splits)
  then show ?thesis by (rule most_visited_child_first)
qed

text \<open>
  C1. \<open>run\<close> of MCTSAgent.py returns the first most visited child of the root (lemma
  \<open>run_returns_most_visited\<close>). \<open>run\<close> of mcts.py does not: on the tree \<open>ex_stats_heap\<close> it
  returns \<open>Move 0 1\<close>, the move of the child with the highest win rate (2 of 3), while
  the most visited child is the one for \<open>Move 0 0\<close> (10 visits, 6 wins).
\<close>

theorem run_result_by_win_rate:
  "map_option (map_sum id fst) (run_result 3 ex_stats_heap 0) = Some (Inr (Some (Move 0 1))) \<and>
   best_win_rate_child ex_stats_heap 0 = Inr 2 \<and>
   most_visited_child ex_stats_heap 0 = Inr 1 \<and>
   move (ex_stats_heap ! 1) = Some (Move 0 0) \<and>
   visits (ex_stats_heap ! 2) < visits (ex_stats_heap ! 1)"
  by code_simp

subsection \<open>The search loop and the budget\<close>

lemma run_loop_iterations:
  assumes "run_loop ev self root_node start_time st = Some y"
  shows "\<forall>s'. y = Inr s' \<longrightarrow> fst st \<le> fst s'"
proof (rule run_loop.raw_induct[where P = "\<lambda>ev self root_node start_time st y.
         \<forall>s'. y = Inr s' \<longrightarrow> fst st \<le> fst s'", OF _ assms], goal_cases)
  case (1 run_loop' ev self root_node start_time st y)
  obtain iterations h k t where st: "st = (iterations, h, k, t)" by (cases st) auto
  show ?case
  proof (cases "clock ev t - start_time < turn_length self")
    case False
    with "1"(2) st show ?thesis by auto
  next
    case True
    show ?thesis
    proof (intro allI impI)
      fix s' assume y: "y = Inr s'"
      from "1"(2) st True y obtain h2 k2 where
        "run_loop' ev self root_node start_time (iterations + 1, h2, k2, Suc t) = Some y"
        by (auto split: option.splits sum.splits)
      from "1"(1)[OF this] y have "iterations + 1 \<le> fst s'" by simp
      with st show "fst st \<le> fst s'" by simp
    qed
  qed
qed

lemma run_loop_stop:
  assumes "\<not> clock ev t - start_time < turn_length self"
  shows "run_loop ev self root_node start_time (iterations, h, k, t) =
           Some (Inr (iterations, h, k, Suc t))"
  using assms by (subst run_loop.simps) simp

lemma run_loop_first:
  assumes "clock ev t - start_time < turn_length self"
    and "run_loop ev self root_node start_time (iterations, h, k, t) = Some (Inr s')"
  shows "iterations + 1 \<le> fst s'"
proof -
  from assms(2) have "(case select ev self h root_node k of None \<Rightarrow> None
              | Some (Inl e) \<Rightarrow> Some (Inl e)
              | Some (Inr (h1, node, k1)) \<Rightarrow>
                  (case simulate ev self h1 node k1 of
                     None \<Rightarrow> None
                   | Some (Inl e) \<Rightarrow> Some (Inl e)
                   | Some (Inr (result, k2)) \<Rightarrow>
                       (case backpropagate h1 (Some node) result of
                          None \<Rightarrow> None
                        | Some (Inl e) \<Rightarrow> Some (Inl e)
                        | Some (Inr h2) \<Rightarrow>
                            run_loop ev self root_node start_time (iterations + 1, h2, k2, Suc t))))
       = Some (Inr s')"
    using assms(1) by (subst (asm) run_loop.simps) simp
  then obtain h2 k2 where
    "run_loop ev self root_node start_time (iterations + 1, h2, k2, Suc t) = Some (Inr s')"
    by (auto split: option.splits sum.splits)
  from run_loop_iterations[OF this] show ?thesis by simp
qed

text \<open>
  C4, as the code has it. The loop tests the budget before every iteration. When the first
  test already finds the budget used up (as for every budget that is zero or negative on a
  clock that does not run backwards) no iteration runs: \<open>run\<close> goes straight to the choice
  among the children of the root as it was given, and on a root without children that
  choice raises ValueError. Whenever \<open>run\<close> returns a child, that child is among the
  children of the root; and when the first test finds budget left, at least one iteration
  was completed.
\<close>

theorem run_iterations:
  shows "(turn_length self \<le> clock ev (Suc t) - clock ev t \<longrightarrow>
            run ev self h root_node k t =
              Some (map_sum id (\<lambda>best. (best, 0, h, k, Suc (Suc t))) (most_visited_child h root_node)) \<and>
            (root_node < length h \<and> children (h ! root_node) = [] \<longrightarrow>
               run ev self h root_node k t = Some (Inl ValueError))) \<and>
         (\<forall>best iterations h' k' t'.
            run ev self h root_node k t = Some (Inr (best, iterations, h', k', t')) \<longrightarrow>
              best \<in> set (children (h' ! root_node)) \<and>
              (clock ev (Suc t) - clock ev t < turn_length self \<longrightarrow> 1 \<le> iterations))"
proof (intro conjI impI allI)
  assume a: "turn_length self \<le> clock ev (Suc t) - clock ev t"
  then have "\<not> clock ev (Suc t) - clock ev t < turn_length self" by simp
  from run_loop_stop[OF this] show r: "run ev self h root_node k t =
      Some (map_sum id (\<lambda>best. (best, 0, h, k, Suc (Suc t))) (most_visited_child h root_node))"
    by (simp add: run_def Let_def split: sum.splits)
  assume "root_node < length h \<and> children (h ! root_node) = []"
  then have "most_visited_child h root_node = Inl ValueError"
    by (simp add: most_visited_child_def deref_def py_max_def)
  with r show "run ev self h root_node k t = Some (Inl ValueError)" by simp
next
  fix best iterations h' k' t'
  assume r: "run ev self h root_node k t = Some (Inr (best, iterations, h', k', t'))"
  from run_returns_most_visited[OF r] show "best \<in> set (children (h' ! root_node))" by auto
  assume c: "clock ev (Suc t) - clock ev t < turn_length self"
  from r have "run_loop ev self root_node (clock ev t) (0, h, k, Suc t) =
                 Some (Inr (iterations, h', k', t'))"
    by (auto simp: run_def Let_def split: option.splits sum.splits)
  from run_loop_first[OF c this] show "1 \<le> iterations" by simp
qed

lemma ex_run_once:
  "map_option (map_sum id (\<lambda>(best, iterations, h', k', t'). (best, iterations, map visits h', k', t')))
     (run ex_env (ex_mcts\<lparr>turn_length := 3 / 2\<rparr>) ex_root_heap 0 0 0) =
   Some (Inr (1, 1, [1, 1], 4, 3))"
  by code_simp

theorem run_iterations_witness:
  "turn_length (ex_mcts\<lparr>turn_length := 0\<rparr>) \<le> clock ex_env 1 - clock ex_env 0 \<and>
   run ex_env (ex_mcts\<lparr>turn_length := 0\<rparr>) ex_root_heap 0 0 0 = Some (Inl ValueError) \<and>
   clock ex_env 1 - clock ex_env 0 < turn_length (ex_mcts\<lparr>turn_length := 3 / 2\<rparr>) \<and>
   (\<exists>best iterations h' k' t'.
      run ex_env (ex_mcts\<lparr>turn_length := 3 / 2\<rparr>) ex_root_heap 0 0 0 =
        Some (Inr (best, iterations, h', k', t')) \<and>
      best \<in> set (children (h' ! 0)) \<and> 1 \<le> iterations)"
proof -
  have a: "turn_length (ex_mcts\<lparr>turn_length := 0\<rparr>) \<le> clock ex_env (Suc 0) - clock ex_env 0"
    by (simp add: ex_env_def)
  have b: "0 < length ex_root_heap \<and> children (ex_root_heap ! 0) = []"
    by (simp add: ex_root_heap_def)
  from run_iterations[of "ex_mcts\<lparr>turn_length := 0\<rparr>" ex_env 0 ex_root_heap 0 0] a b
  have r0: "run ex_env (ex_mcts\<lparr>turn_length := 0\<rparr>) ex_root_heap 0 0 0 = Some (Inl ValueError)"
    by blast
  have c: "clock ex_env (Suc 0) - clock ex_env 0 < turn_length (ex_mcts\<lparr>turn_length := 3 / 2\<rparr>)"
    by (simp add: ex_env_def)
  from ex_run_once obtain best iterations h' k' t' where
    r1: "run ex_env (ex_mcts\<lparr>turn_length := 3 / 2\<rparr>) ex_root_heap 0 0 0 =
           Some (Inr (best, iterations, h', k', t'))"
    by (cases "run ex_env (ex_mcts\<lparr>turn_length := 3 / 2\<rparr>) ex_root_heap 0 0 0")
       (auto simp: map_sum_def split: sum.splits)
  from run_iterations[of "ex_mcts\<lparr>turn_length := 3 / 2\<rparr>" ex_env 0 ex_root_heap 0 0] r1 c
  have "best \<in> set (children (h' ! 0)) \<and> 1 \<le> iterations" by blast
  with a r0 c r1 show ?thesis by auto
qed

text \<open>
  C4, as the spec states it, fails: with a budget of 0, of -1 or of a millisecond (on a
  clock that advances by a second) no iteration runs on a root without children, and the
  choice of the best child raises ValueError.
\<close>

theorem run_zero_budget_counterexample:
  "run ex_env (ex_mcts\<lparr>turn_length := 0\<rparr>) ex_root_heap 0 0 0 = Some (Inl ValueError) \<and>
   run ex_env (ex_mcts\<lparr>turn_length := - 1\<rparr>) ex_root_heap 0 0 0 = Some (Inl ValueError) \<and>
   run ex_env (ex_mcts\<lparr>turn_length := 1 / 1000\<rparr>) ex_root_heap 0 0 0 = Some (Inl ValueError) \<and>
   children (ex_root_heap ! 0) = []"
  by code_simp

subsection \<open>The agent and the caller's board\<close>















subsection \<open>The visit-count distribution\<close>

lemma sum_list_scaled:
  "sum_list (map (\<lambda>v. of_int v / (c::rat)) xs) = of_int (sum_list xs) / c"
  by (induction xs) (simp_all add: add_divide_distrib)

lemma sum_rows_scaled:
  "sum_list (map sum_list (map (map (\<lambda>v. of_int v / (c::rat))) d)) =
     of_int (sum_list (map sum_list d)) / c"
  by (induction d) (simp_all add: sum_list_scaled add_divide_distrib)

lemma distribution_sums_to_one:
  assumes "get_visit_count_distribution fuel h node = Some (Inr d)"
  shows "sum_list (map sum_list d) = 1"
proof -
  from assms obtain d0 where
    d0: "sum_list (map sum_list d0) \<noteq> 0"
        "d = map (map (\<lambda>v. of_int v / of_int (sum_list (map sum_list d0)))) d0"
    by (auto simp: get_visit_count_distribution_def Let_def split: option.splits sum.splits if_splits)
  have "sum_list (map sum_list d) =
          of_int (sum_list (map sum_list d0)) / of_int (sum_list (map sum_list d0))"
    unfolding d0(2) by (rule sum_rows_scaled)
  with d0(1) show ?thesis by simp
qed

text \<open>
  C9. \<open>_count_visits_DFS\<close> recurses into every descendant of the root, so the
  distribution counts the visits of deeper nodes as well. On \<open>ex_stats_heap\<close> the cell
  (1,1), which holds the move of a grandchild only, gets 4/17, and the cells of the two
  children get 10/17 and 3/17; the distribution over the root's children gives 10/13, 3/13
  and 0.
\<close>

theorem visit_distribution_counts_descendants:
  "map_option (map_sum id (\<lambda>d. (d ! 0 ! 0, d ! 0 ! 1, d ! 1 ! 1)))
     (get_visit_count_distribution 3 ex_stats_heap 0) = Some (Inr (10 / 17, 3 / 17, 4 / 17)) \<and>
   (child_visit_distribution ex_stats_heap 0 ! 0 ! 0,
    child_visit_distribution ex_stats_heap 0 ! 0 ! 1,
    child_visit_distribution ex_stats_heap 0 ! 1 ! 1) = (10 / 13, 3 / 13, 0) \<and>
   move (ex_stats_heap ! 3) = Some (Move 1 1) \<and> 3 \<notin> set (children (ex_stats_heap ! 0)) \<and>
   get_visit_count_distribution 3 ex_stats_heap 0 \<noteq>
     Some (Inr (child_visit_distribution ex_stats_heap 0))"
  by code_simp

subsection \<open>The time allowed for a turn\<close>

lemma close_to_bounds:
  assumes "close_to eps a x" "0 \<le> x"
  shows "(1 - eps) * x \<le> a \<and> a \<le> (1 + eps) * x"
  using assms by (simp add: close_to_def abs_le_iff algebra_simps)

lemma sum_list_scale_bounds:
  fixes f g :: "nat \<Rightarrow> rat"
  assumes "\<And>j. j \<in> set js \<Longrightarrow> lo * g j \<le> f j \<and> f j \<le> hi * g j"
  shows "lo * sum_list (map g js) \<le> sum_list (map f js) \<and>
         sum_list (map f js) \<le> hi * sum_list (map g js)"
  using assms
proof (induction js)
  case Nil
  show ?case by simp
next
  case (Cons j js)
  from Cons.prems[of j] have a: "lo * g j \<le> f j" "f j \<le> hi * g j" by simp_all
  from Cons.IH Cons.prems have b: "lo * sum_list (map g js) \<le> sum_list (map f js)"
    "sum_list (map f js) \<le> hi * sum_list (map g js)" by simp_all
  from a b show ?case by (simp add: algebra_simps add_mono)
qed

lemma py_nth_map_upt:
  assumes "j < n"
  shows "py_nth (map f [0..<n]) (int (Suc j) - 1) = Inr (f j)"
  using assms by (simp add: py_nth_def)

lemma allowed_times_shift:
  "allowed_times fo = map (\<lambda>j. allowed_time fo (int (Suc j)) 121 300) [0..<121]"
proof -
  have "[1..<122] = map Suc [0..<121]" by (simp add: map_Suc_upt)
  then show ?thesis by (simp add: allowed_times_def comp_def del: upt_Suc)
qed

lemma budget_core:
  fixes e q Wh :: rat and w t :: "nat \<Rightarrow> rat"
  assumes e: "e = 1 / 2 ^ 40" and q: "q = decay_rate"
    and w: "\<And>j. j < 121 \<Longrightarrow> (1 - e) * q ^ j \<le> w j \<and> w j \<le> (1 + e) * q ^ j"
    and Wh: "(1 - e) * sum_list (map w [0..<121]) \<le> Wh"
            "Wh \<le> (1 + e) * sum_list (map w [0..<121])"
    and t: "\<And>j. j < 121 \<Longrightarrow>
              (1 - e) ^ 2 * (300 / Wh * w j) \<le> t j \<and> t j \<le> (1 + e) ^ 2 * (300 / Wh * w j)"
  shows "(\<forall>j. Suc j < 121 \<longrightarrow> t (Suc j) < t j) \<and>
         (1 - e) ^ 2 * 300 / (1 + e) \<le> sum_list (map t [0..<121]) \<and>
         sum_list (map t [0..<121]) \<le> (1 + e) ^ 2 * 300 / (1 - e) \<and>
         (\<forall>j<121. 0 < t j)"
proof -
  have e0: "0 < e" "e < 1" "0 < 1 - e" "0 < 1 + e" by (simp_all add: e)
  have q0: "0 < q" "q < 1" using q by (simp_all add: decay_rate_def)
  have wpos: "0 < w j" if "j < 121" for j
  proof -
    have "0 < (1 - e) * q ^ j" using e0 q0 by simp
    with w[OF that] show ?thesis by linarith
  qed
  let ?W = "sum_list (map w [0..<121])"
  have Wpos: "0 < ?W"
  proof -
    have "[0..<121] = 0 # [1..<121]" by (simp add: upt_conv_Cons)
    then have "?W = w 0 + sum_list (map w [1..<121])" by simp
    moreover have "0 \<le> sum_list (map w [1..<121])"
      by (rule sum_list_nonneg) (auto simp: less_imp_le wpos)
    ultimately show ?thesis using wpos[of 0] by linarith
  qed
  have Whpos: "0 < Wh"
  proof -
    have "0 < (1 - e) * ?W" using e0 Wpos by simp
    with Wh(1) show ?thesis by linarith
  qed
  define K where "K = 300 / Wh"
  have Kpos: "0 < K" using Whpos by (simp add: K_def)
  have tb: "(1 - e) ^ 2 * (K * w j) \<le> t j" "t j \<le> (1 + e) ^ 2 * (K * w j)" if "j < 121" for j
    using t[OF that] by (simp_all add: K_def)
  have tpos: "0 < t j" if "j < 121" for j
  proof -
    have "0 < (1 - e) ^ 2 * (K * w j)" using e0 Kpos wpos[OF that] by simp
    with tb(1)[OF that] show ?thesis by linarith
  qed
  have dec: "t (Suc j) < t j" if sj: "Suc j < 121" for j
  proof -
    from sj have j: "j < 121" by simp
    have num: "(1 + e) ^ 3 * q < (1 - e) ^ 3"
      unfolding e q by code_simp
    have a: "t (Suc j) \<le> (1 + e) ^ 2 * (K * ((1 + e) * q ^ Suc j))"
    proof -
      have "K * w (Suc j) \<le> K * ((1 + e) * q ^ Suc j)"
        using w[OF sj] Kpos by (simp add: mult_left_mono)
      then have "(1 + e) ^ 2 * (K * w (Suc j)) \<le> (1 + e) ^ 2 * (K * ((1 + e) * q ^ Suc j))"
        by (rule mult_left_mono) simp
      with tb(2)[OF sj] show ?thesis by linarith
    qed
    have b: "(1 - e) ^ 2 * (K * ((1 - e) * q ^ j)) \<le> t j"
    proof -
      have "K * ((1 - e) * q ^ j) \<le> K * w j"
        using w[OF j] Kpos by (simp add: mult_left_mono)
      then have "(1 - e) ^ 2 * (K * ((1 - e) * q ^ j)) \<le> (1 - e) ^ 2 * (K * w j)"
        by (rule mult_left_mono) simp
      with tb(1)[OF j] show ?thesis by linarith
    qed
    have "0 < K * q ^ j" using Kpos q0 by simp
    with num have "(K * q ^ j) * ((1 + e) ^ 3 * q) < (K * q ^ j) * (1 - e) ^ 3"
      by (rule mult_strict_left_mono)
    moreover have "(1 + e) ^ 2 * (K * ((1 + e) * q ^ Suc j)) = (K * q ^ j) * ((1 + e) ^ 3 * q)"
      by (simp add: power2_eq_square power3_eq_cube algebra_simps)
    moreover have "(1 - e) ^ 2 * (K * ((1 - e) * q ^ j)) = (K * q ^ j) * (1 - e) ^ 3"
      by (simp add: power2_eq_square power3_eq_cube algebra_simps)
    ultimately show ?thesis using a b by linarith
  qed
  have sb: "(1 - e) ^ 2 * K * ?W \<le> sum_list (map t [0..<121])"
           "sum_list (map t [0..<121]) \<le> (1 + e) ^ 2 * K * ?W"
  proof -
    have "(1 - e) ^ 2 * K * w j \<le> t j \<and> t j \<le> (1 + e) ^ 2 * K * w j" if "j < 121" for j
      using tb[OF that] by (simp add: mult.assoc)
    then have "\<And>j. j \<in> set [0..<121] \<Longrightarrow>
        ((1 - e) ^ 2 * K) * w j \<le> t j \<and> t j \<le> ((1 + e) ^ 2 * K) * w j" by simp
    from sum_list_scale_bounds[of "[0..<121]" "(1 - e) ^ 2 * K" w t "(1 + e) ^ 2 * K", OF this]
    show "(1 - e) ^ 2 * K * ?W \<le> sum_list (map t [0..<121])"
         "sum_list (map t [0..<121]) \<le> (1 + e) ^ 2 * K * ?W" by simp_all
  qed
  have KW_hi: "K * ?W \<le> 300 / (1 - e)"
  proof -
    have "300 * ?W * (1 - e) \<le> 300 * Wh"
      using Wh(1) by (simp add: algebra_simps)
    then have "300 * ?W / Wh \<le> 300 / (1 - e)"
      using Whpos e0 by (simp add: field_simps)
    then show ?thesis by (simp add: K_def)
  qed
  have KW_lo: "300 / (1 + e) \<le> K * ?W"
  proof -
    have "300 * Wh \<le> 300 * ?W * (1 + e)"
      using Wh(2) by (simp add: algebra_simps)
    then have "300 / (1 + e) \<le> 300 * ?W / Wh"
      using Whpos e0 by (simp add: field_simps)
    then show ?thesis by (simp add: K_def)
  qed
  have hi: "sum_list (map t [0..<121]) \<le> (1 + e) ^ 2 * 300 / (1 - e)"
  proof -
    have "(1 + e) ^ 2 * (K * ?W) \<le> (1 + e) ^ 2 * (300 / (1 - e))"
      using KW_hi by (rule mult_left_mono) simp
    with sb(2) show ?thesis by (simp add: mult.assoc)
  qed
  have lo: "(1 - e) ^ 2 * 300 / (1 + e) \<le> sum_list (map t [0..<121])"
  proof -
    have "(1 - e) ^ 2 * (300 / (1 + e)) \<le> (1 - e) ^ 2 * (K * ?W)"
      using KW_lo by (rule mult_left_mono) simp
    with sb(1) show ?thesis by (simp add: mult.assoc)
  qed
  from dec lo hi tpos show ?thesis by blast
qed

lemma scale_up: "0 \<le> X \<Longrightarrow> 0 \<le> e \<Longrightarrow> X \<le> (1 + e) * (X::rat)"
proof -
  assume "0 \<le> X" "0 \<le> e"
  then have "0 \<le> e * X" by (rule mult_nonneg_nonneg[rotated])
  then show ?thesis by (simp add: algebra_simps)
qed

lemma scale_down: "0 \<le> X \<Longrightarrow> 0 \<le> e \<Longrightarrow> (1 - e) * X \<le> (X::rat)"
proof -
  assume "0 \<le> X" "0 \<le> e"
  then have "0 \<le> e * X" by (rule mult_nonneg_nonneg[rotated])
  then show ?thesis by (simp add: algebra_simps)
qed

lemma half_lo: "0 \<le> x \<Longrightarrow> e \<le> 1 / 2 \<Longrightarrow> x / 2 \<le> (1 - e) * (x::rat)"
proof -
  assume "0 \<le> x" "e \<le> 1 / 2"
  then have "e * x \<le> (1 / 2) * x" by (intro mult_right_mono)
  then show ?thesis by (simp add: algebra_simps)
qed

lemma dbl_hi: "0 \<le> x \<Longrightarrow> e \<le> 1 \<Longrightarrow> (1 + e) * x \<le> 2 * (x::rat)"
proof -
  assume "0 \<le> x" "e \<le> 1"
  then have "e * x \<le> 1 * x" by (intro mult_right_mono)
  then show ?thesis by (simp add: algebra_simps)
qed

lemma coarse_bounds:
  fixes x a e lo hi :: rat
  assumes "(1 - e) * x \<le> a \<and> a \<le> (1 + e) * x" and "lo \<le> x \<and> x \<le> hi"
    and "0 \<le> lo" and "e \<le> 1 / 2"
  shows "lo / 2 \<le> a \<and> a \<le> 2 * hi"
proof -
  from assms have x0: "0 \<le> x" by linarith
  from assms(4) have e1: "e \<le> 1" by linarith
  from half_lo[OF x0 assms(4)] dbl_hi[OF x0 e1] assms(1,2) show ?thesis by linarith
qed

lemma sq_step: "a \<le> x \<Longrightarrow> 0 \<le> a \<Longrightarrow> b \<le> a * a \<Longrightarrow> b \<le> (x::rat) ^ 2"
proof -
  assume "a \<le> x" "0 \<le> a" "b \<le> a * a"
  then have "a ^ 2 \<le> x ^ 2" by (intro power_mono)
  with \<open>b \<le> a * a\<close> show ?thesis by (simp add: power2_eq_square)
qed

lemma decay_rate_power_128: "3 / 250 \<le> decay_rate ^ 128"
proof -
  have p1: "9699 / 10000 \<le> decay_rate" by (simp add: decay_rate_def)
  have p2: "47 / 50 \<le> decay_rate ^ 2" using p1 by (rule sq_step) simp_all
  have "22 / 25 \<le> (decay_rate ^ 2) ^ 2" using p2 by (rule sq_step) simp_all
  then have p4: "22 / 25 \<le> decay_rate ^ 4" by (simp add: power_mult [symmetric])
  have "77 / 100 \<le> (decay_rate ^ 4) ^ 2" using p4 by (rule sq_step) simp_all
  then have p8: "77 / 100 \<le> decay_rate ^ 8" by (simp add: power_mult [symmetric])
  have "59 / 100 \<le> (decay_rate ^ 8) ^ 2" using p8 by (rule sq_step) simp_all
  then have p16: "59 / 100 \<le> decay_rate ^ 16" by (simp add: power_mult [symmetric])
  have "17 / 50 \<le> (decay_rate ^ 16) ^ 2" using p16 by (rule sq_step) simp_all
  then have p32: "17 / 50 \<le> decay_rate ^ 32" by (simp add: power_mult [symmetric])
  have "11 / 100 \<le> (decay_rate ^ 32) ^ 2" using p32 by (rule sq_step) simp_all
  then have p64: "11 / 100 \<le> decay_rate ^ 64" by (simp add: power_mult [symmetric])
  have "3 / 250 \<le> (decay_rate ^ 64) ^ 2" using p64 by (rule sq_step) simp_all
  then show ?thesis by (simp add: power_mult [symmetric])
qed

lemma decay_power_bounds:
  assumes "j < 121"
  shows "1 / 524288 \<le> decay_rate ^ j \<and> decay_rate ^ j \<le> 1"
proof -
  have q: "0 \<le> decay_rate" "decay_rate \<le> 1"
    by (simp_all add: decay_rate_def)
  have "(1::rat) / 524288 \<le> 3 / 250" by simp
  also have "\<dots> \<le> decay_rate ^ 128" by (rule decay_rate_power_128)
  also have "\<dots> \<le> decay_rate ^ j" using assms q by (intro power_decreasing) simp_all
  finally have "1 / 524288 \<le> decay_rate ^ j" .
  moreover have "decay_rate ^ j \<le> 1" using q by (intro power_le_one) simp_all
  ultimately show ?thesis by simp
qed

text \<open>
  C3. For every floating-point arithmetic whose operations are within the relative error
  \<open>2 ^ -40\<close> of the exact ones on the operands that occur (binary64 arithmetic with
  rounding to nearest is, lemma \<open>binary64_model\<close> below), the
  calls \<open>allowed_time(i, 121, 300)\<close> for \<open>i\<close> from 1 to 121 all return, the times returned
  decrease strictly from each turn to the next, and their sum differs from 300 by at most
  \<open>10 ^ -6\<close>, whether it is taken exactly or with the rounded \<open>f_sum\<close>.
\<close>

theorem allowed_time_budget:
  assumes fm: "float_model (1 / 2 ^ 40) fo"
  shows "\<exists>ts. allowed_times fo = map Inr ts \<and> length ts = 121 \<and>
              (\<forall>i. Suc i < 121 \<longrightarrow> ts ! Suc i < ts ! i) \<and>
              \<bar>sum_list ts - 300\<bar> \<le> 1 / 10 ^ 6 \<and>
              \<bar>f_sum fo ts - 300\<bar> \<le> 1 / 10 ^ 6"
proof -
  define e :: rat where "e = 1 / 2 ^ 40"
  define q where "q = decay_rate"
  define w where "w = (\<lambda>j::nat. f_pow fo decay_rate (int j))"
  define Wh where "Wh = f_sum fo (map w [0..<121])"
  define t where "t = (\<lambda>j. f_mul fo (f_div fo (w j) Wh) 300)"
  define ts where "ts = map t [0..<121]"
  have e0: "0 < e" "e < 1" "0 < 1 - e" "0 < 1 + e" "e \<le> 1 / 2" "e \<le> 1"
    by (simp_all add: e_def)
  have q0: "0 < q" using q_def by (simp add: decay_rate_def)
  from fm have m_pow: "\<And>i. 0 \<le> i \<and> i < 121 \<Longrightarrow>
        close_to e (f_pow fo decay_rate i) (decay_rate ^ nat i)"
    and m_sum: "\<And>xs. length xs \<le> 121 \<and> list_all in_range xs \<Longrightarrow>
        close_to e (f_sum fo xs) (sum_list xs)"
    and m_div: "\<And>a b. in_range a \<and> in_range b \<Longrightarrow> close_to e (f_div fo a b) (a / b)"
    and m_mul: "\<And>a b. in_range a \<and> in_range b \<Longrightarrow> close_to e (f_mul fo a b) (a * b)"
    unfolding float_model_def e_def by blast+
  have wb: "(1 - e) * q ^ j \<le> w j \<and> w j \<le> (1 + e) * q ^ j" if "j < 121" for j
  proof -
    have "close_to e (w j) (q ^ j)" using m_pow[of "int j"] that by (simp add: w_def q_def)
    moreover have "0 \<le> q ^ j" using q0 by simp
    ultimately show ?thesis by (rule close_to_bounds)
  qed
  have wc: "1 / 1048576 \<le> w j \<and> w j \<le> 2" if "j < 121" for j
  proof -
    from decay_power_bounds[OF that] have p: "1 / 524288 \<le> q ^ j" "q ^ j \<le> 1"
      by (simp_all add: q_def)
    from coarse_bounds[OF wb[OF that] conjI[OF p] _ e0(5)] show ?thesis by simp
  qed
  have wr: "in_range (w j)" if "j < 121" for j
    using wc[OF that] by (simp add: in_range_def)
  have wpos: "0 < w j" if "j < 121" for j
    using wc[OF that] by linarith
  let ?W = "sum_list (map w [0..<121])"
  have Wc: "1 / 2 \<le> ?W \<and> ?W \<le> 242"
  proof -
    have "[0..<121] = 0 # [1..<121]" by (simp add: upt_conv_Cons)
    then have "?W = w 0 + sum_list (map w [1..<121])" by simp
    moreover have "0 \<le> sum_list (map w [1..<121])"
      by (rule sum_list_nonneg) (auto simp: less_imp_le wpos)
    moreover have "1 / 2 \<le> w 0"
      using wb[of 0] half_lo[of 1 e] e0 by simp
    ultimately have lo: "1 / 2 \<le> ?W" by linarith
    have "\<And>j. j \<in> set [0..<121] \<Longrightarrow> 0 * 1 \<le> w j \<and> w j \<le> 2 * 1"
      using wc wpos by (simp add: less_imp_le)
    from sum_list_scale_bounds[of "[0..<121]" 0 "\<lambda>_. 1" w 2, OF this]
    have "?W \<le> 2 * sum_list (map (\<lambda>_. 1) [0..<121])" by simp
    also have "\<dots> = 242" by (simp add: sum_list_triv)
    finally show ?thesis using lo by simp
  qed
  have Whb: "(1 - e) * ?W \<le> Wh \<and> Wh \<le> (1 + e) * ?W"
  proof -
    have "length (map w [0..<121]) \<le> 121 \<and> list_all in_range (map w [0..<121])"
      by (simp add: list_all_iff wr)
    then have c: "close_to e Wh ?W" unfolding Wh_def by (rule m_sum)
    have "0 \<le> ?W" using Wc by linarith
    with c show ?thesis by (rule close_to_bounds)
  qed
  have Whc: "1 / 4 \<le> Wh \<and> Wh \<le> 484"
  proof -
    from coarse_bounds[OF Whb Wc _ e0(5)] show ?thesis by simp
  qed
  have Whpos: "0 < Wh" using Whc by linarith
  have Whr: "in_range Wh" using Whc by (simp add: in_range_def)
  have xc: "1 / 536870912 \<le> w j / Wh \<and> w j / Wh \<le> 8" if "j < 121" for j
  proof -
    have "(1 / 1048576) / 512 \<le> w j / Wh"
      using wc[OF that] Whc Whpos by (intro frac_le) simp_all
    moreover have "w j / Wh \<le> 2 / (1 / 4)"
      using wc[OF that] Whc wpos[OF that] by (intro frac_le) simp_all
    ultimately show ?thesis by simp
  qed
  have rb: "(1 - e) * (w j / Wh) \<le> f_div fo (w j) Wh \<and>
            f_div fo (w j) Wh \<le> (1 + e) * (w j / Wh)" if "j < 121" for j
  proof -
    have c: "close_to e (f_div fo (w j) Wh) (w j / Wh)"
      using wr[OF that] Whr by (intro m_div) simp
    have "0 \<le> w j / Wh" using xc[OF that] by linarith
    with c show ?thesis by (rule close_to_bounds)
  qed
  have rc: "1 / 1073741824 \<le> f_div fo (w j) Wh \<and> f_div fo (w j) Wh \<le> 16" if "j < 121" for j
  proof -
    from coarse_bounds[OF rb[OF that] xc[OF that] _ e0(5)] show ?thesis by simp
  qed
  have tb0: "(1 - e) * (f_div fo (w j) Wh * 300) \<le> t j \<and>
             t j \<le> (1 + e) * (f_div fo (w j) Wh * 300)" if "j < 121" for j
  proof -
    have "in_range (f_div fo (w j) Wh) \<and> in_range 300"
      using rc[OF that] by (simp add: in_range_def)
    then have c: "close_to e (t j) (f_div fo (w j) Wh * 300)" unfolding t_def by (rule m_mul)
    have "0 \<le> f_div fo (w j) Wh * 300" using rc[OF that] by linarith
    with c show ?thesis by (rule close_to_bounds)
  qed
  have tr: "in_range (t j)" if "j < 121" for j
  proof -
    from rc[OF that] have "1 / 1073741824 * 300 \<le> f_div fo (w j) Wh * 300 \<and>
        f_div fo (w j) Wh * 300 \<le> 16 * 300" by simp
    from coarse_bounds[OF tb0[OF that] this _ e0(5)] show ?thesis by (simp add: in_range_def)
  qed
  have tb: "(1 - e) ^ 2 * (300 / Wh * w j) \<le> t j \<and> t j \<le> (1 + e) ^ 2 * (300 / Wh * w j)"
    if "j < 121" for j
  proof -
    let ?r = "f_div fo (w j) Wh"
    have "(1 - e) * (w j / Wh) * 300 \<le> ?r * 300"
      using rb[OF that] by (intro mult_right_mono) simp_all
    then have "(1 - e) * ((1 - e) * (w j / Wh) * 300) \<le> (1 - e) * (?r * 300)"
      by (rule mult_left_mono) (use e0 in simp)
    with tb0[OF that] have l: "(1 - e) * ((1 - e) * (w j / Wh) * 300) \<le> t j" by linarith
    have "?r * 300 \<le> (1 + e) * (w j / Wh) * 300"
      using rb[OF that] by (intro mult_right_mono) simp_all
    then have "(1 + e) * (?r * 300) \<le> (1 + e) * ((1 + e) * (w j / Wh) * 300)"
      by (rule mult_left_mono) (use e0 in simp)
    with tb0[OF that] have u: "t j \<le> (1 + e) * ((1 + e) * (w j / Wh) * 300)" by linarith
    have eq1: "(1 - e) * ((1 - e) * (w j / Wh) * 300) = (1 - e) ^ 2 * (300 / Wh * w j)"
      by (simp add: power2_eq_square)
    have eq2: "(1 + e) * ((1 + e) * (w j / Wh) * 300) = (1 + e) ^ 2 * (300 / Wh * w j)"
      by (simp add: power2_eq_square)
    from l have l': "(1 - e) ^ 2 * (300 / Wh * w j) \<le> t j" by (simp only: eq1)
    from u have u': "t j \<le> (1 + e) ^ 2 * (300 / Wh * w j)" by (simp only: eq2)
    from l' u' show ?thesis by (rule conjI)
  qed
  from budget_core[of e q w Wh t, OF e_def q_def wb conjunct1[OF Whb] conjunct2[OF Whb] tb]
  have dec: "\<And>j. Suc j < 121 \<Longrightarrow> t (Suc j) < t j"
    and lo: "(1 - e) ^ 2 * 300 / (1 + e) \<le> sum_list (map t [0..<121])"
    and hi: "sum_list (map t [0..<121]) \<le> (1 + e) ^ 2 * 300 / (1 - e)"
    by blast+
  have at: "allowed_time fo (int (Suc j)) 121 300 = Inr (t j)" if "j < 121" for j
  proof -
    have "py_nth (map (\<lambda>i. f_pow fo decay_rate (int i)) [0..<121]) (int (Suc j) - 1) =
            Inr (f_pow fo decay_rate (int j))"
      using that by (rule py_nth_map_upt)
    moreover have "f_sum fo (map (\<lambda>i. f_pow fo decay_rate (int i)) [0..<121]) = Wh"
      by (simp add: Wh_def w_def)
    ultimately show ?thesis
      using Whpos by (simp add: allowed_time_def Let_def t_def w_def del: upt_Suc of_nat_Suc)
  qed
  have all: "allowed_times fo = map Inr ts"
    unfolding allowed_times_shift ts_def map_map comp_def
    by (rule map_cong) (simp_all add: at del: upt_Suc of_nat_Suc)
  have len: "length ts = 121" by (simp add: ts_def)
  have nth: "ts ! i = t i" if "i < 121" for i
    using that by (simp add: ts_def del: upt_Suc)
  have strict: "\<forall>i. Suc i < 121 \<longrightarrow> ts ! Suc i < ts ! i"
    using nth dec by simp
  have S: "sum_list ts = sum_list (map t [0..<121])" by (simp add: ts_def)
  have n_hi: "(1 + e) * ((1 + e) ^ 2 * 300 / (1 - e)) \<le> 300 + 1 / 10 ^ 6"
    unfolding e_def by code_simp
  have n_lo: "300 - 1 / 10 ^ 6 \<le> (1 - e) * ((1 - e) ^ 2 * 300 / (1 + e))"
    unfolding e_def by code_simp
  have hpos: "0 \<le> (1 + e) ^ 2 * 300 / (1 - e)" using e0 by simp
  have lpos: "0 \<le> (1 - e) ^ 2 * 300 / (1 + e)" using e0 by simp
  have Spos: "0 \<le> sum_list ts" using lo lpos S by linarith
  have s1: "sum_list ts \<le> 300 + 1 / 10 ^ 6"
  proof -
    have "(1 + e) ^ 2 * 300 / (1 - e) \<le> (1 + e) * ((1 + e) ^ 2 * 300 / (1 - e))"
      using hpos e0(1) by (intro scale_up) simp_all
    with hi n_hi S show ?thesis by linarith
  qed
  have s2: "300 - 1 / 10 ^ 6 \<le> sum_list ts"
  proof -
    have "(1 - e) * ((1 - e) ^ 2 * 300 / (1 + e)) \<le> (1 - e) ^ 2 * 300 / (1 + e)"
      using lpos e0(1) by (intro scale_down) simp_all
    with lo n_lo S show ?thesis by linarith
  qed
  have fs: "(1 - e) * sum_list ts \<le> f_sum fo ts \<and> f_sum fo ts \<le> (1 + e) * sum_list ts"
  proof -
    have "length ts \<le> 121 \<and> list_all in_range ts"
      by (simp add: ts_def list_all_iff tr)
    then have "close_to e (f_sum fo ts) (sum_list ts)" by (rule m_sum)
    then show ?thesis using Spos by (rule close_to_bounds)
  qed
  have f1: "f_sum fo ts \<le> 300 + 1 / 10 ^ 6"
  proof -
    have "sum_list ts \<le> (1 + e) ^ 2 * 300 / (1 - e)" using hi S by simp
    then have "(1 + e) * sum_list ts \<le> (1 + e) * ((1 + e) ^ 2 * 300 / (1 - e))"
      by (rule mult_left_mono) (use e0 in simp)
    with fs n_hi show ?thesis by linarith
  qed
  have f2: "300 - 1 / 10 ^ 6 \<le> f_sum fo ts"
  proof -
    have "(1 - e) ^ 2 * 300 / (1 + e) \<le> sum_list ts" using lo S by simp
    then have "(1 - e) * ((1 - e) ^ 2 * 300 / (1 + e)) \<le> (1 - e) * sum_list ts"
      by (rule mult_left_mono) (use e0 in simp)
    with fs n_lo show ?thesis by linarith
  qed
  from s1 s2 have a1: "\<bar>sum_list ts - 300\<bar> \<le> 1 / 10 ^ 6" by linarith
  from f1 f2 have a2: "\<bar>f_sum fo ts - 300\<bar> \<le> 1 / 10 ^ 6" by linarith
  from all len strict a1 a2 show ?thesis by blast
qed

text \<open>The rounding sends 97/100 to the number that \<open>decay_rate\<close> is.\<close>

lemma fl_decay_rate: "fl (97 / 100) = decay_rate"
  by code_simp

lemma round_half_even_error: "\<bar>of_int (round_half_even m) - m\<bar> \<le> 1 / 2"
proof -
  have "of_int \<lfloor>m\<rfloor> \<le> m" "m < of_int \<lfloor>m\<rfloor> + 1" by linarith+
  then show ?thesis by (auto simp: round_half_even_def Let_def)
qed

lemma fl_error:
  assumes "0 < x"
  shows "\<bar>fl x - x\<bar> \<le> x / 2 ^ 53"
proof (cases "binade \<bar>x\<bar>")
  case None
  with assms show ?thesis by (simp add: fl_def)
next
  case (Some k)
  from assms have ax: "\<bar>x\<bar> = x" "sgn x = 1" by simp_all
  from Some have "find (\<lambda>k. 2 powi k \<le> x \<and> x < 2 powi (k + 1)) [-64..64] = Some k"
    by (simp only: binade_def ax)
  then have k: "2 powi k \<le> x" unfolding find_Some_iff by blast
  define s :: rat where "s = 2 powi (k - 52)"
  have spos: "0 < s" by (simp add: s_def)
  have s2: "s = 2 powi k / 2 ^ 52" by (simp add: s_def power_int_diff)
  have f: "fl x = of_int (round_half_even (x / s)) * s"
    using Some by (simp add: fl_def ax s_def)
  have "fl x - x = (of_int (round_half_even (x / s)) - x / s) * s"
    using spos by (simp add: f algebra_simps)
  then have "\<bar>fl x - x\<bar> = \<bar>of_int (round_half_even (x / s)) - x / s\<bar> * s"
    using spos by (simp add: abs_mult)
  also have "\<dots> \<le> (1 / 2) * s"
    using round_half_even_error spos by (intro mult_right_mono) simp_all
  also have "\<dots> = 2 powi k / 2 ^ 53" by (simp add: s2)
  also have "\<dots> \<le> x / 2 ^ 53" using k by (simp add: divide_right_mono)
  finally show ?thesis .
qed

lemma fl_close: "0 < x \<Longrightarrow> close_to (1 / 2 ^ 53) (fl x) x"
  using fl_error[of x] by (simp add: close_to_def)

lemma close_to_weaken: "close_to eps a x \<Longrightarrow> eps \<le> eps' \<Longrightarrow> close_to eps' a x"
proof -
  assume a: "close_to eps a x" and b: "eps \<le> eps'"
  from b have "eps * \<bar>x\<bar> \<le> eps' * \<bar>x\<bar>" by (intro mult_right_mono) simp_all
  with a show ?thesis unfolding close_to_def by linarith
qed

lemma fl_bounds:
  assumes "0 < x"
  shows "(1 - 1 / 2 ^ 53) * x \<le> fl x \<and> fl x \<le> (1 + 1 / 2 ^ 53) * x"
proof -
  from assms have "0 \<le> x" by simp
  with fl_close[OF assms] show ?thesis by (rule close_to_bounds)
qed

lemma power_upper: "0 \<le> u \<Longrightarrow> 2 * of_nat n * u \<le> 1 \<Longrightarrow> (1 + u) ^ n \<le> 1 + 2 * of_nat n * (u::rat)"
proof (induction n)
  case 0
  show ?case by simp
next
  case (Suc n)
  have "2 * of_nat n * u \<le> 2 * of_nat (Suc n) * u"
    using Suc.prems(1) by (intro mult_right_mono) simp_all
  with Suc.prems(2) have s: "2 * of_nat n * u \<le> 1" by linarith
  from Suc.IH[OF Suc.prems(1) s] have ih: "(1 + u) ^ n \<le> 1 + 2 * of_nat n * u" .
  have "(1 + u) ^ Suc n = (1 + u) * (1 + u) ^ n" by simp
  also have "\<dots> \<le> (1 + u) * (1 + 2 * of_nat n * u)"
    using ih Suc.prems(1) by (intro mult_left_mono) simp_all
  also have "\<dots> = 1 + 2 * of_nat n * u + u + (2 * of_nat n * u) * u"
    by (simp add: algebra_simps)
  also have "\<dots> \<le> 1 + 2 * of_nat n * u + u + 1 * u"
    using s Suc.prems(1) by (intro add_left_mono mult_right_mono) simp_all
  also have "\<dots> = 1 + 2 * of_nat (Suc n) * u" by (simp add: algebra_simps)
  finally show ?case .
qed

lemma power_lower: "0 \<le> u \<Longrightarrow> u \<le> 1 \<Longrightarrow> 1 - of_nat n * u \<le> (1 - (u::rat)) ^ n"
proof (induction n)
  case 0
  show ?case by simp
next
  case (Suc n)
  from Suc have ih: "1 - of_nat n * u \<le> (1 - u) ^ n" by simp
  have nn: "0 \<le> of_nat n * u * u" using Suc.prems by simp
  have "1 - of_nat (Suc n) * u \<le> (1 - u) * (1 - of_nat n * u)"
    using nn by (simp add: algebra_simps)
  also have "\<dots> \<le> (1 - u) * (1 - u) ^ n"
    using ih Suc.prems by (intro mult_left_mono) simp_all
  finally show ?case by simp
qed

lemma fold_sum_bounds:
  fixes u :: rat
  assumes u: "u = 1 / 2 ^ 53"
  shows "\<forall>x\<in>set xs. 0 < x \<Longrightarrow> 0 \<le> A \<Longrightarrow>
         (1 - u) ^ k * A \<le> acc \<Longrightarrow> acc \<le> (1 + u) ^ k * A \<Longrightarrow>
         (1 - u) ^ (k + length xs) * (A + sum_list xs) \<le> foldl (\<lambda>acc x. fl (acc + x)) acc xs \<and>
         foldl (\<lambda>acc x. fl (acc + x)) acc xs \<le> (1 + u) ^ (k + length xs) * (A + sum_list xs)"
proof (induction xs arbitrary: A acc k)
  case Nil
  then show ?case by simp
next
  case (Cons x xs)
  have u0: "0 \<le> u" "u \<le> 1" "0 \<le> 1 - u" "0 \<le> 1 + u" by (simp_all add: u)
  from Cons.prems have x: "0 < x" by simp
  have p1: "(1 - u) ^ k \<le> 1" using u0 by (intro power_le_one) simp_all
  have p2: "1 \<le> (1 + u) ^ k" using u0 by (intro one_le_power) simp_all
  have p0: "0 \<le> (1 - u) ^ k" using u0 by simp
  have acc0: "0 \<le> acc"
  proof -
    have "0 \<le> (1 - u) ^ k * A" using p0 Cons.prems(2) by (rule mult_nonneg_nonneg)
    with Cons.prems(3) show ?thesis by linarith
  qed
  then have pos: "0 < acc + x" using x by linarith
  from fl_bounds[OF pos] have fb: "(1 - u) * (acc + x) \<le> fl (acc + x)"
    "fl (acc + x) \<le> (1 + u) * (acc + x)" by (simp_all add: u)
  have lx: "(1 - u) ^ k * x \<le> x" using p1 x by (simp add: mult_le_cancel_right1)
  have ux: "x \<le> (1 + u) ^ k * x" using p2 x by (simp add: mult_le_cancel_right1)
  have lo: "(1 - u) ^ Suc k * (A + x) \<le> fl (acc + x)"
  proof -
    have "(1 - u) ^ k * (A + x) \<le> acc + x"
      using Cons.prems(3) lx by (simp add: algebra_simps)
    then have "(1 - u) * ((1 - u) ^ k * (A + x)) \<le> (1 - u) * (acc + x)"
      using u0 by (intro mult_left_mono) simp_all
    with fb(1) show ?thesis by (simp add: mult.assoc)
  qed
  have hi: "fl (acc + x) \<le> (1 + u) ^ Suc k * (A + x)"
  proof -
    have "acc + x \<le> (1 + u) ^ k * (A + x)"
      using Cons.prems(4) ux by (simp add: algebra_simps)
    then have "(1 + u) * (acc + x) \<le> (1 + u) * ((1 + u) ^ k * (A + x))"
      using u0 by (intro mult_left_mono) simp_all
    with fb(2) show ?thesis by (simp add: mult.assoc)
  qed
  have A': "0 \<le> A + x" using Cons.prems(2) x by linarith
  from Cons.prems(1) have xs: "\<forall>x\<in>set xs. 0 < x" by simp
  from Cons.IH[OF xs A' lo hi] show ?case by (simp add: add.assoc)
qed

lemma in_range_pos: "in_range x \<Longrightarrow> 0 < x"
proof -
  assume "in_range x"
  then have "1 / 2 ^ 40 \<le> x" by (simp add: in_range_def)
  moreover have "(0::rat) < 1 / 2 ^ 40" by simp
  ultimately show ?thesis by linarith
qed

lemma close_to_from_bounds:
  "0 \<le> x \<Longrightarrow> (1 - eps) * x \<le> a \<Longrightarrow> a \<le> (1 + eps) * x \<Longrightarrow> close_to eps a x"
  by (simp add: close_to_def abs_le_iff algebra_simps)

lemma fl_close_40: "0 < x \<Longrightarrow> close_to (1 / 2 ^ 40) (fl x) x"
  by (rule close_to_weaken[OF fl_close]) simp_all

lemma binary64_sum_close:
  assumes len: "length xs \<le> 121" and rng: "list_all in_range xs"
  shows "close_to (1 / 2 ^ 40) (foldl (\<lambda>acc x. fl (acc + x)) 0 xs) (sum_list xs)"
proof -
  define u :: rat where "u = 1 / 2 ^ 53"
  define n where "n = length xs"
  let ?s = "foldl (\<lambda>acc x. fl (acc + x)) 0 xs"
  let ?S = "sum_list xs"
  have u0: "0 \<le> u" "u \<le> 1" by (simp_all add: u_def)
  have pos: "\<forall>x\<in>set xs. 0 < x" using rng in_range_pos by (auto simp: list_all_iff)
  have S0: "0 \<le> ?S" by (rule sum_list_nonneg) (use pos in \<open>auto simp: less_imp_le\<close>)
  from fold_sum_bounds[OF u_def pos, of 0 0 0]
  have b: "(1 - u) ^ n * ?S \<le> ?s" "?s \<le> (1 + u) ^ n * ?S" by (simp_all add: n_def)
  have nu: "of_nat n * u \<le> 121 * u"
    using len u0 by (intro mult_right_mono) (simp_all add: n_def)
  have c: "121 * u * 2 \<le> 1 / 2 ^ 40" by (simp add: u_def)
  have up: "(1 + u) ^ n \<le> 1 + 1 / 2 ^ 40"
  proof -
    have "2 * of_nat n * u \<le> 1" using nu c by simp
    from power_upper[OF u0(1) this] nu c show ?thesis by linarith
  qed
  have lw: "1 - 1 / 2 ^ 40 \<le> (1 - u) ^ n"
    using power_lower[OF u0, of n] nu c u0 by linarith
  have hi: "?s \<le> (1 + 1 / 2 ^ 40) * ?S"
  proof -
    have "(1 + u) ^ n * ?S \<le> (1 + 1 / 2 ^ 40) * ?S" using up S0 by (rule mult_right_mono)
    with b(2) show ?thesis by linarith
  qed
  have lo: "(1 - 1 / 2 ^ 40) * ?S \<le> ?s"
  proof -
    have "(1 - 1 / 2 ^ 40) * ?S \<le> (1 - u) ^ n * ?S" using lw S0 by (rule mult_right_mono)
    with b(1) show ?thesis by linarith
  qed
  from S0 lo hi show ?thesis by (rule close_to_from_bounds)
qed

lemma binary64_model: "float_model (1 / 2 ^ 40) binary64_ops"
  unfolding float_model_def
proof (intro conjI allI impI)
  fix i :: int
  assume "0 \<le> i \<and> i < 121"
  have "0 < decay_rate ^ nat i" by (simp add: decay_rate_def)
  then show "close_to (1 / 2 ^ 40) (f_pow binary64_ops decay_rate i) (decay_rate ^ nat i)"
    unfolding binary64_ops_def float_ops.select_convs by (rule fl_close_40)
next
  fix xs :: "rat list"
  assume "length xs \<le> 121 \<and> list_all in_range xs"
  then show "close_to (1 / 2 ^ 40) (f_sum binary64_ops xs) (sum_list xs)"
    unfolding binary64_ops_def float_ops.select_convs by (intro binary64_sum_close) simp_all
next
  fix a b :: rat
  assume "in_range a \<and> in_range b"
  then have "0 < a / b" using in_range_pos by simp
  then show "close_to (1 / 2 ^ 40) (f_div binary64_ops a b) (a / b)"
    unfolding binary64_ops_def float_ops.select_convs by (rule fl_close_40)
next
  fix a b :: rat
  assume "in_range a \<and> in_range b"
  then have "0 < a * b" using in_range_pos by simp
  then show "close_to (1 / 2 ^ 40) (f_mul binary64_ops a b) (a * b)"
    unfolding binary64_ops_def float_ops.select_convs by (rule fl_close_40)
qed

theorem allowed_time_budget_witness:
  "float_model (1 / 2 ^ 40) binary64_ops \<and>
   (\<exists>ts. allowed_times binary64_ops = map Inr ts \<and> length ts = 121 \<and>
         (\<forall>i. Suc i < 121 \<longrightarrow> ts ! Suc i < ts ! i) \<and>
         \<bar>sum_list ts - 300\<bar> \<le> 1 / 10 ^ 6 \<and>
         \<bar>f_sum binary64_ops ts - 300\<bar> \<le> 1 / 10 ^ 6)"
  using allowed_time_budget[OF binary64_model] binary64_model by blast

end
